theory Spec2Isabelle
  imports Complex_Main "HOL-Library.List_Lexorder" "HOL-Library.Char_ord"
    "HOL-Library.Log_Nat"
begin

section \<open>One-shot query over the live transport\<close>

text \<open>
  \<^verbatim>\<open>executeQueryViaSubscription\<close> (composables/useConvexQuery.ts) wraps
  \<^verbatim>\<open>convex.onUpdate\<close> in a promise.  The closure owns the flag \<^verbatim>\<open>resolved\<close>;
  the promise is a write-once cell; every call of the handle returned by
  \<^verbatim>\<open>onUpdate\<close> is counted.
\<close>

record 'a oneShot =
  resolved :: bool
  unsubscribeCalls :: nat
  promise :: "'a option"

text \<open>Resolving a promise that is already settled has no effect.\<close>

definition resolve :: "'a \<Rightarrow> 'a option \<Rightarrow> 'a option" where
  "resolve v p = (case p of None \<Rightarrow> Some v | Some w \<Rightarrow> Some w)"

definition oneShotInit :: "'a oneShot" where
  "oneShotInit = \<lparr>resolved = False, unsubscribeCalls = 0, promise = None\<rparr>"

text \<open>The update callback handed to \<^verbatim>\<open>convex.onUpdate\<close>.\<close>

definition onUpdateCallback :: "'a \<Rightarrow> 'a oneShot \<Rightarrow> 'a oneShot" where
  "onUpdateCallback result s =
     (if \<not> resolved s
      then s\<lparr>resolved := True,
             unsubscribeCalls := unsubscribeCalls s + 1,
             promise := resolve result (promise s)\<rparr>
      else s)"

text \<open>
  The state of the closure after the transport has pushed the values \<open>pushes\<close>, in
  order.  Every push reaches the callback, also those after the unsubscribe call: the
  callback does not rely on the transport to stop.
\<close>

definition executeQueryViaSubscription :: "'a list \<Rightarrow> 'a oneShot" where
  "executeQueryViaSubscription pushes = foldl (\<lambda>s v. onUpdateCallback v s) oneShotInit pushes"

section \<open>The authentication token coordinator\<close>

text \<open>
  The client plugin keeps the token in \<^verbatim>\<open>convexToken\<close>, the identity in
  \<^verbatim>\<open>convexUser\<close> and the time of the last validation in the closure variable
  \<^verbatim>\<open>lastTokenValidation\<close>.  \<open>networkCalls\<close> counts the calls of
  \<^verbatim>\<open>authClient.convex.token()\<close>, the only network access of fetchToken.
  A token or user that is \<^verbatim>\<open>null\<close> or \<^verbatim>\<open>undefined\<close> is \<open>None\<close>.
\<close>

record 'u authState =
  convexToken :: "string option"
  convexUser :: "'u option"
  lastTokenValidation :: int
  networkCalls :: nat

text \<open>JavaScript truthiness of a \<^verbatim>\<open>string | null\<close>: the empty string is falsy.\<close>

fun truthy :: "string option \<Rightarrow> bool" where
  "truthy None = False"
| "truthy (Some t) = (t \<noteq> [])"

text \<open>
  What \<^verbatim>\<open>await authClient.convex.token()\<close> does: it throws (or rejects), or
  it yields a response.  \<open>Responds e t\<close>: \<open>e\<close> is the truthiness of
  \<^verbatim>\<open>response.error\<close>, \<open>t\<close> is \<^verbatim>\<open>response.data?.token\<close>.
\<close>

datatype tokenOutcome = Throws | Responds bool "string option"

definition TOKEN_CACHE_MS :: int where
  "TOKEN_CACHE_MS = 10000"

definition DEFAULT_TOKEN_CACHE_TTL_MS :: int where
  "DEFAULT_TOKEN_CACHE_TTL_MS = 10000"

text \<open>
  fetchToken of src/runtime/plugin.client.ts.  \<open>now\<close> is \<^verbatim>\<open>Date.now()\<close> when
  the call starts, \<open>later\<close> is \<^verbatim>\<open>Date.now()\<close> after the awaited response.
  \<open>jwtUser\<close> stands for the decoding of the token's payload (split at the dots,
  \<^verbatim>\<open>atob\<close>, \<^verbatim>\<open>JSON.parse\<close>, the test for \<^verbatim>\<open>sub\<close>,
  \<^verbatim>\<open>userId\<close> or \<^verbatim>\<open>email\<close>): \<open>None\<close> when it throws or finds no
  identity, in which case \<^verbatim>\<open>convexUser\<close> is left as it is.
\<close>

definition fetchToken ::
  "(string \<Rightarrow> 'u option) \<Rightarrow> tokenOutcome \<Rightarrow> int \<Rightarrow> int \<Rightarrow> bool \<Rightarrow> 'u authState
     \<Rightarrow> string option \<times> 'u authState" where
  "fetchToken jwtUser net now later forceRefreshToken s =
     (if truthy (convexToken s) \<and> \<not> forceRefreshToken
      then (convexToken s, s\<lparr>lastTokenValidation := now\<rparr>)
      else
        let timeSinceValidation = now - lastTokenValidation s in
        if truthy (convexToken s) \<and> forceRefreshToken \<and> timeSinceValidation < TOKEN_CACHE_MS
        then (convexToken s, s)
        else
          let s1 = s\<lparr>networkCalls := networkCalls s + 1\<rparr> in
          (case net of
             Throws \<Rightarrow> (None, s1\<lparr>convexToken := None, convexUser := None\<rparr>)
           | Responds err tok \<Rightarrow>
               if err \<or> \<not> truthy tok
               then (None, s1\<lparr>convexToken := None, convexUser := None\<rparr>)
               else
                 let s2 = s1\<lparr>convexToken := tok, lastTokenValidation := later\<rparr> in
                 (tok,
                  if convexUser s2 = None
                  then (case jwtUser (the tok) of
                          None \<Rightarrow> s2
                        | Some u \<Rightarrow> s2\<lparr>convexUser := Some u\<rparr>)
                  else s2)))"

text \<open>
  fetchToken of the second copy of the client plugin (src/unnamed/part_002).  It has the
  guard for a session without any hydrated state, decodes no identity, and its failure
  branches assign \<^verbatim>\<open>convexToken\<close> only.
\<close>

definition fetchToken_part_002 ::
  "tokenOutcome \<Rightarrow> int \<Rightarrow> int \<Rightarrow> bool \<Rightarrow> 'u authState \<Rightarrow> string option \<times> 'u authState" where
  "fetchToken_part_002 net now later forceRefreshToken s =
     (if truthy (convexToken s) \<and> \<not> forceRefreshToken
      then (convexToken s, s\<lparr>lastTokenValidation := now\<rparr>)
      else
        let timeSinceValidation = now - lastTokenValidation s in
        if truthy (convexToken s) \<and> forceRefreshToken \<and> timeSinceValidation < TOKEN_CACHE_MS
        then (convexToken s, s)
        else if \<not> truthy (convexToken s) \<and> convexUser s = None
        then (None, s)
        else
          let s1 = s\<lparr>networkCalls := networkCalls s + 1\<rparr> in
          (case net of
             Throws \<Rightarrow> (None, s1\<lparr>convexToken := None\<rparr>)
           | Responds err tok \<Rightarrow>
               if err \<or> \<not> truthy tok
               then (None, s1\<lparr>convexToken := None\<rparr>)
               else (tok, s1\<lparr>convexToken := tok, lastTokenValidation := later\<rparr>)))"

text \<open>The network call failed: it threw, reported an error, or carried no token.\<close>

fun fetchFailed :: "tokenOutcome \<Rightarrow> bool" where
  "fetchFailed Throws = True"
| "fetchFailed (Responds err tok) = (err \<or> \<not> truthy tok)"

text \<open>A session state used in the examples: a hydrated token validated at time 0.\<close>

definition hydrated :: "string authState" where
  "hydrated = \<lparr>convexToken = Some ''jwt-1'', convexUser = Some ''ada'',
               lastTokenValidation = 0, networkCalls = 0\<rparr>"

definition unauthenticated :: "string authState" where
  "unauthenticated = \<lparr>convexToken = None, convexUser = None,
                      lastTokenValidation = 0, networkCalls = 0\<rparr>"

section \<open>The subscription registry and the reactive query binding\<close>

text \<open>
  The arguments of a binding: the sentinel \<^verbatim>\<open>'skip'\<close> or a concrete mapping.
\<close>

datatype 'a queryArgs = Skip | Args 'a

text \<open>
  \<^verbatim>\<open>convex.onUpdate\<close> has two call sites: the one-shot fetch of
  executeQueryViaSubscription and the live feed of setupSubscription.
\<close>

datatype site = FirstResult | LiveFeed

text \<open>
  The part of the session that a binding reads and writes.  \<open>onUpdateLog\<close> has one
  entry for every call of \<^verbatim>\<open>convex.onUpdate\<close>; the handle returned by a call is the
  position of its entry.  \<open>unsubscribeLog\<close> has one entry for every call of such a handle,
  \<open>httpLog\<close> one for every POST of executeQueryHttp.  \<open>convexSubscriptions\<close> is
  \<^verbatim>\<open>nuxtApp._convexSubscriptions\<close>, declared in src/runtime/types.d.ts as a record
  from cache keys to teardown callbacks; \<open>registerLog\<close> lists the keys passed to
  registerSubscription.
\<close>

record 'a nuxtApp =
  isServer :: bool
  convexUrl :: bool
  convex :: bool
  onUpdateThrows :: bool
  httpLog :: "'a list"
  onUpdateLog :: "(site \<times> 'a) list"
  unsubscribeLog :: "nat list"
  convexSubscriptions :: "string \<rightharpoonup> nat"
  registerLog :: "string list"

text \<open>
  Modelled from the spec: the four registry functions live in utils/convex-cache, which is
  not among the sources.  Section 4.4: \<^verbatim>\<open>has(key)\<close> tells whether an entry exists.
\<close>

definition hasSubscription :: "'a nuxtApp \<Rightarrow> string \<Rightarrow> bool" where
  "hasSubscription app key = (convexSubscriptions app key \<noteq> None)"

text \<open>
  Modelled from the spec: \<^verbatim>\<open>register(key, teardown)\<close> of utils/convex-cache
  "stores the entry if absent; if present, the call is a no-op (existing subscription
  wins)".
\<close>

definition registerSubscription :: "'a nuxtApp \<Rightarrow> string \<Rightarrow> nat \<Rightarrow> 'a nuxtApp" where
  "registerSubscription app key teardown =
     (let app1 = app\<lparr>registerLog := registerLog app @ [key]\<rparr> in
      if hasSubscription app key then app1
      else app1\<lparr>convexSubscriptions := (convexSubscriptions app)(key \<mapsto> teardown)\<rparr>)"

text \<open>
  Modelled from the spec: \<^verbatim>\<open>cleanup(key)\<close> of utils/convex-cache "invokes the stored
  teardown (if present) and removes the entry; safe to call when absent (no-op)".
\<close>

definition cleanupSubscription :: "'a nuxtApp \<Rightarrow> string \<Rightarrow> 'a nuxtApp" where
  "cleanupSubscription app key =
     (case convexSubscriptions app key of
        None \<Rightarrow> app
      | Some teardown \<Rightarrow>
          app\<lparr>unsubscribeLog := unsubscribeLog app @ [teardown],
              convexSubscriptions := (convexSubscriptions app)(key := None)\<rparr>)"

text \<open>
  Modelled from the spec: \<^verbatim>\<open>removeWithoutTeardown(key)\<close> of utils/convex-cache
  "removes bookkeeping only".
\<close>

definition removeFromSubscriptionCache :: "'a nuxtApp \<Rightarrow> string \<Rightarrow> 'a nuxtApp" where
  "removeFromSubscriptionCache app key =
     app\<lparr>convexSubscriptions := (convexSubscriptions app)(key := None)\<rparr>"

text \<open>
  One call of useConvexQuery.  \<open>args\<close> is the current value of the (possibly reactive)
  arguments, \<open>argsIsRef\<close> is \<^verbatim>\<open>isRef(args)\<close>, \<open>subscribe\<close> the option of that
  name, \<open>unsubscribeFn\<close> the closure variable of that name.
\<close>

record 'a binding =
  fnName :: string
  args :: "'a queryArgs"
  argsIsRef :: bool
  subscribe :: bool
  unsubscribeFn :: "nat option"

text \<open>
  \<^verbatim>\<open>getCacheKey\<close>.  getQueryKey (as stableStringify below) belongs to
  utils/convex-cache and is a parameter; the watcher also applies it to
  \<^verbatim>\<open>'skip'\<close>.
\<close>

definition getCacheKey :: "('a queryArgs \<Rightarrow> string) \<Rightarrow> 'a binding \<Rightarrow> string" where
  "getCacheKey getQueryKey b =
     (case args b of
        Skip \<Rightarrow> ''convex:skip:'' @ fnName b
      | Args a \<Rightarrow> getQueryKey (Args a))"

datatype error = ConvexUrlNotConfigured | ConvexClientNotAvailable | TransportError

text \<open>
  What the handler given to useAsyncData resolves to: \<^verbatim>\<open>undefined\<close> at once, or the
  value that the transport will deliver for the request just issued.
\<close>

datatype 'a fetched = ResolvedUndefined | Awaiting site 'a | AwaitingHttp 'a

text \<open>
  The handler passed to useAsyncData, up to the point where it waits for the transport.
  On the server it posts the query over HTTP (the bearer token it attaches comes from
  fetchAuthToken of utils/convex-cache, which is left out); on the client it opens the
  one-shot subscription of executeQueryViaSubscription.
\<close>

definition handler :: "'a binding \<Rightarrow> 'a nuxtApp \<Rightarrow> (error + 'a fetched) \<times> 'a nuxtApp" where
  "handler b app =
     (case args b of
        Skip \<Rightarrow> (Inr ResolvedUndefined, app)
      | Args currentArgs \<Rightarrow>
          if \<not> convexUrl app then (Inl ConvexUrlNotConfigured, app)
          else if isServer app
          then (Inr (AwaitingHttp currentArgs), app\<lparr>httpLog := httpLog app @ [currentArgs]\<rparr>)
          else if \<not> convex app then (Inl ConvexClientNotAvailable, app)
          else if onUpdateThrows app then (Inl TransportError, app)
          else (Inr (Awaiting FirstResult currentArgs),
                app\<lparr>onUpdateLog := onUpdateLog app @ [(FirstResult, currentArgs)]\<rparr>))"

text \<open>setupSubscription; a throwing \<^verbatim>\<open>convex.onUpdate\<close> is caught and only logged.\<close>

definition setupSubscription ::
  "('a queryArgs \<Rightarrow> string) \<Rightarrow> 'a binding \<Rightarrow> 'a nuxtApp \<Rightarrow> 'a binding \<times> 'a nuxtApp" where
  "setupSubscription getQueryKey b app =
     (case args b of
        Skip \<Rightarrow> (b, app)
      | Args currentArgs \<Rightarrow>
          if \<not> convex app then (b, app)
          else
            let currentCacheKey = getCacheKey getQueryKey b in
            if hasSubscription app currentCacheKey then (b, app)
            else if onUpdateThrows app then (b, app)
            else
              let handle = length (onUpdateLog app);
                  app1 = app\<lparr>onUpdateLog := onUpdateLog app @ [(LiveFeed, currentArgs)]\<rparr>
              in (b\<lparr>unsubscribeFn := Some handle\<rparr>,
                  registerSubscription app1 currentCacheKey handle))"

text \<open>
  The callback of the binding's own watcher; it runs after the reactive arguments have
  taken the value \<open>newArgs\<close>, so \<open>args b = newArgs\<close> when it is called.
\<close>

definition argsWatcher ::
  "('a queryArgs \<Rightarrow> string) \<Rightarrow> ('a queryArgs \<Rightarrow> string) \<Rightarrow> 'a queryArgs \<Rightarrow> 'a queryArgs
     \<Rightarrow> 'a binding \<Rightarrow> 'a nuxtApp \<Rightarrow> 'a binding \<times> 'a nuxtApp" where
  "argsWatcher getQueryKey stableStringify newArgs oldArgs b app =
     (if stableStringify newArgs \<noteq> stableStringify oldArgs
      then
        let oldCacheKey = getQueryKey oldArgs;
            app1 = cleanupSubscription app oldCacheKey;
            b1 = b\<lparr>unsubscribeFn := None\<rparr>
        in if newArgs \<noteq> Skip then setupSubscription getQueryKey b1 app1 else (b1, app1)
      else (b, app))"

text \<open>The hook registered with onUnmounted.\<close>

definition onUnmounted ::
  "('a queryArgs \<Rightarrow> string) \<Rightarrow> 'a binding \<Rightarrow> 'a nuxtApp \<Rightarrow> 'a binding \<times> 'a nuxtApp" where
  "onUnmounted getQueryKey b app =
     (case unsubscribeFn b of
        None \<Rightarrow> (b, app)
      | Some handle \<Rightarrow>
          let app1 = removeFromSubscriptionCache app (getCacheKey getQueryKey b) in
          (b\<lparr>unsubscribeFn := None\<rparr>,
           app1\<lparr>unsubscribeLog := unsubscribeLog app1 @ [handle]\<rparr>))"

text \<open>
  The reactive arguments take a new value.  useAsyncData was given
  \<^verbatim>\<open>watch: [args]\<close> "to trigger re-fetch", so the handler runs once more; then the
  binding's own watcher runs, which exists on the client when the subscribe option is on.
  Neither watcher exists unless the arguments are a ref.
\<close>

definition argsChange ::
  "('a queryArgs \<Rightarrow> string) \<Rightarrow> ('a queryArgs \<Rightarrow> string) \<Rightarrow> 'a queryArgs
     \<Rightarrow> 'a binding \<Rightarrow> 'a nuxtApp \<Rightarrow> 'a binding \<times> 'a nuxtApp" where
  "argsChange getQueryKey stableStringify newArgs b app =
     (if \<not> argsIsRef b then (b, app)
      else
        let oldArgs = args b;
            b1 = b\<lparr>args := newArgs\<rparr>;
            app1 = snd (handler b1 app)
        in if \<not> isServer app \<and> subscribe b
           then argsWatcher getQueryKey stableStringify newArgs oldArgs b1 app1
           else (b1, app1))"

text \<open>Examples: keys as getQueryKey and stableStringify could produce them.\<close>

fun exampleKey :: "nat queryArgs \<Rightarrow> string" where
  "exampleKey Skip = ''convex:tasks:get:skip''"
| "exampleKey (Args n) = ''convex:tasks:get:id='' @ replicate n (CHR ''i'')"

definition clientApp :: "nat nuxtApp" where
  "clientApp = \<lparr>isServer = False, convexUrl = True, convex = True, onUpdateThrows = False,
                httpLog = [], onUpdateLog = [], unsubscribeLog = [],
                convexSubscriptions = Map.empty, registerLog = []\<rparr>"

definition skippedBinding :: "nat binding" where
  "skippedBinding = \<lparr>fnName = ''tasks:get'', args = Skip, argsIsRef = True,
                     subscribe = True, unsubscribeFn = None\<rparr>"

text \<open>A session in which another binding already holds the live feed for \<open>Args 5\<close>.\<close>

definition sharedApp :: "nat nuxtApp" where
  "sharedApp = snd (setupSubscription exampleKey (skippedBinding\<lparr>args := Args 5\<rparr>) clientApp)"

section \<open>Deep equality and ordering of values\<close>

text \<open>
  JavaScript numbers.  A finite double is the rational it denotes (\<^verbatim>\<open>+0\<close> and
  \<^verbatim>\<open>-0\<close>, which \<^verbatim>\<open>===\<close> identifies, are both \<open>Fin 0\<close>).
\<close>

datatype jsnum = Fin rat | PosInf | NegInf | NaN

text \<open>
  Rounding to the nearest double, ties to even, as every arithmetic operation and
  \<^verbatim>\<open>Number(bigint)\<close> does.  \<open>pow2 e\<close> is 2 to the power \<open>e\<close>, \<open>floorlog2 m\<close> the
  binary exponent of a positive \<open>m\<close>.  A positive magnitude is rounded to a multiple of
  the unit in its last place, which is 52 binary places below its exponent and never
  below \<open>pow2 (- 1074)\<close>, the smallest subnormal; a rounded magnitude of \<open>2 ^ 1024\<close> or
  more overflows to an infinity.
\<close>

definition pow2 :: "int \<Rightarrow> rat" where
  "pow2 e = (if 0 \<le> e then 2 ^ nat e else 1 / 2 ^ nat (- e))"

definition floorlog2 :: "rat \<Rightarrow> int" where
  "floorlog2 m = (if 1 \<le> m then bitlen \<lfloor>m\<rfloor> - 1 else - bitlen (\<lceil>1 / m\<rceil> - 1))"

definition roundHalfEven :: "rat \<Rightarrow> int" where
  "roundHalfEven q =
     (let f = \<lfloor>q\<rfloor>; r = q - of_int f
      in if r < 1 / 2 then f else if 1 / 2 < r then f + 1 else if even f then f else f + 1)"

definition roundMagnitude :: "rat \<Rightarrow> rat" where
  "roundMagnitude m =
     (let e = max (floorlog2 m) (- 1022);
          ulp = pow2 (e - 52)
      in of_int (roundHalfEven (m / ulp)) * ulp)"

definition overflowBound :: rat where
  "overflowBound = 2 ^ 1024"

definition toDouble :: "rat \<Rightarrow> jsnum" where
  "toDouble d =
     (if d = 0 then Fin 0
      else if overflowBound \<le> roundMagnitude \<bar>d\<bar>
      then (if 0 < d then PosInf else NegInf)
      else Fin (if 0 < d then roundMagnitude \<bar>d\<bar> else - roundMagnitude \<bar>d\<bar>))"

text \<open>The rationals that are doubles: those that rounding leaves alone.\<close>

definition isDouble :: "rat \<Rightarrow> bool" where
  "isDouble x = (toDouble x = Fin x)"

text \<open>
  The values that deepEqual and compareJsonValues are applied to: the primitives,
  arrays, and plain objects as lists of own enumerable properties.  An array or an object
  carries its reference, which is all that \<^verbatim>\<open>===\<close> looks at.
\<close>

datatype jsval =
    JUndefined
  | JNull
  | JBool bool
  | JNum jsnum
  | JStr string
  | JArr nat "jsval list"
  | JObj nat "(string \<times> jsval) list"

fun typeof :: "jsval \<Rightarrow> string" where
  "typeof JUndefined = ''undefined''"
| "typeof JNull = ''object''"
| "typeof (JBool b) = ''boolean''"
| "typeof (JNum n) = ''number''"
| "typeof (JStr s) = ''string''"
| "typeof (JArr r xs) = ''object''"
| "typeof (JObj r kvs) = ''object''"

fun isArray :: "jsval \<Rightarrow> bool" where
  "isArray (JArr r xs) = True"
| "isArray v = False"

text \<open>\<^verbatim>\<open>v == null\<close>: true of null and of undefined.\<close>

fun nullish :: "jsval \<Rightarrow> bool" where
  "nullish JUndefined = True"
| "nullish JNull = True"
| "nullish v = False"

text \<open>\<^verbatim>\<open>a === b\<close>.  NaN is not equal to itself.\<close>

fun strictEq :: "jsval \<Rightarrow> jsval \<Rightarrow> bool" where
  "strictEq JUndefined JUndefined = True"
| "strictEq JNull JNull = True"
| "strictEq (JBool a) (JBool b) = (a = b)"
| "strictEq (JNum a) (JNum b) = (a \<noteq> NaN \<and> a = b)"
| "strictEq (JStr a) (JStr b) = (a = b)"
| "strictEq (JArr r xs) (JArr r' ys) = (r = r')"
| "strictEq (JObj r kvs) (JObj r' kvs') = (r = r')"
| "strictEq a b = False"

text \<open>
  deepEqual (utils/shared-helpers.ts).  The match on two arrays is the test
  \<^verbatim>\<open>Array.isArray(a) && Array.isArray(b)\<close>; the match on two objects is what is left
  of the test for two values of type object once null and a pair of arrays are excluded
  and an array against an object has returned false; every other pair reaches the last
  \<^verbatim>\<open>return false\<close>.  \<open>deepEqualElems\<close> is the loop over the indices of two arrays
  of equal length (its second equation is never reached from deepEqual),
  \<open>deepEqualProps\<close> the loop over \<^verbatim>\<open>aKeys\<close>: its first argument holds the
  properties of \<^verbatim>\<open>a\<close> still to be visited, its second all properties of
  \<^verbatim>\<open>b\<close>.
\<close>

fun deepEqual :: "jsval \<Rightarrow> jsval \<Rightarrow> bool"
  and deepEqualElems :: "jsval list \<Rightarrow> jsval list \<Rightarrow> bool"
  and deepEqualProps :: "(string \<times> jsval) list \<Rightarrow> (string \<times> jsval) list \<Rightarrow> bool" where
  "deepEqual a b =
     (if strictEq a b then True
      else if nullish a \<or> nullish b then strictEq a b
      else if typeof a \<noteq> typeof b then False
      else (case (a, b) of
              (JArr r xs, JArr r' ys) \<Rightarrow>
                if length xs \<noteq> length ys then False else deepEqualElems xs ys
            | (JObj r kvs, JObj r' kvs') \<Rightarrow>
                if length kvs \<noteq> length kvs' then False else deepEqualProps kvs kvs'
            | _ \<Rightarrow> False))"
| "deepEqualElems [] ys = True"
| "deepEqualElems (x # xs) [] = True"
| "deepEqualElems (x # xs) (y # ys) = (if \<not> deepEqual x y then False else deepEqualElems xs ys)"
| "deepEqualProps [] kvs' = True"
| "deepEqualProps ((key, v) # kvs) kvs' =
     (case map_of kvs' key of
        None \<Rightarrow> False
      | Some w \<Rightarrow> if \<not> deepEqual v w then False else deepEqualProps kvs kvs')"

text \<open>
  The environment of compareJsonValues: \<^verbatim>\<open>String.prototype.localeCompare\<close> (its
  result depends on the collation of the host), \<^verbatim>\<open>String(v)\<close>, and
  \<^verbatim>\<open>BigInt(v)\<close>, which is \<open>None\<close> where BigInt throws.
\<close>

record jsenv =
  localeCompare :: "string \<Rightarrow> string \<Rightarrow> int"
  toStr :: "jsval \<Rightarrow> string"
  toBigInt :: "jsval \<Rightarrow> int option"

text \<open>
  \<^verbatim>\<open>a - b\<close> on numbers: the exact difference of two finite doubles, rounded; it is
  an infinity when the rounded difference leaves the range of the doubles.
\<close>

fun jsminus :: "jsnum \<Rightarrow> jsnum \<Rightarrow> jsnum" where
  "jsminus NaN b = NaN"
| "jsminus a NaN = NaN"
| "jsminus (Fin a) (Fin b) = toDouble (a - b)"
| "jsminus (Fin a) PosInf = NegInf"
| "jsminus (Fin a) NegInf = PosInf"
| "jsminus PosInf PosInf = NaN"
| "jsminus PosInf b = PosInf"
| "jsminus NegInf NegInf = NaN"
| "jsminus NegInf b = NegInf"

text \<open>\<^verbatim>\<open>'$integer' in v\<close> and \<^verbatim>\<open>v.$integer\<close>.\<close>

fun hasInteger :: "jsval \<Rightarrow> bool" where
  "hasInteger (JObj r kvs) = (map_of kvs ''$integer'' \<noteq> None)"
| "hasInteger v = False"

fun integerOf :: "jsval \<Rightarrow> jsval" where
  "integerOf (JObj r kvs) = (case map_of kvs ''$integer'' of Some v \<Rightarrow> v | None \<Rightarrow> JUndefined)"
| "integerOf v = JUndefined"

text \<open>
  compareJsonValues (utils/shared-helpers.ts); \<open>None\<close> when BigInt throws.
  \<open>compareElems\<close> is the loop over the indices below the larger of the two lengths; an
  index beyond the end of an array reads \<^verbatim>\<open>undefined\<close>.  The inner match on two
  numbers, two strings, two booleans stands for the three \<^verbatim>\<open>typeof\<close> tests.
  The difference of two BigInts is exact; \<^verbatim>\<open>Number\<close> rounds it to a double or an
  infinity.
\<close>

fun compareJsonValues :: "jsenv \<Rightarrow> jsval \<Rightarrow> jsval \<Rightarrow> jsnum option"
  and compareElems :: "jsenv \<Rightarrow> jsval list \<Rightarrow> jsval list \<Rightarrow> jsnum option" where
  "compareJsonValues E a b =
     (case (a, b) of
        (JArr r xs, JArr r' ys) \<Rightarrow> compareElems E xs ys
      | _ \<Rightarrow>
        if nullish a \<and> nullish b then Some (Fin 0)
        else if nullish a then Some (Fin (- 1))
        else if nullish b then Some (Fin 1)
        else (case (a, b) of
            (JNum x, JNum y) \<Rightarrow> Some (jsminus x y)
          | (JStr x, JStr y) \<Rightarrow> Some (Fin (of_int (localeCompare E x y)))
          | (JBool x, JBool y) \<Rightarrow> Some (Fin ((if x then 1 else 0) - (if y then 1 else 0)))
          | _ \<Rightarrow>
            if hasInteger a \<and> hasInteger b
            then (case toBigInt E (integerOf a) of
                    None \<Rightarrow> None
                  | Some aInt \<Rightarrow>
                      (case toBigInt E (integerOf b) of
                         None \<Rightarrow> None
                       | Some bInt \<Rightarrow> Some (toDouble (of_int (aInt - bInt)))))
            else Some (Fin (of_int (localeCompare E (toStr E a) (toStr E b))))))"
| "compareElems E [] [] = Some (Fin 0)"
| "compareElems E (x # xs) [] =
     (case compareJsonValues E x JUndefined of
        None \<Rightarrow> None
      | Some comparison \<Rightarrow>
          if comparison \<noteq> Fin 0 then Some comparison else compareElems E xs [])"
| "compareElems E [] (y # ys) =
     (case compareJsonValues E JUndefined y of
        None \<Rightarrow> None
      | Some comparison \<Rightarrow>
          if comparison \<noteq> Fin 0 then Some comparison else compareElems E [] ys)"
| "compareElems E (x # xs) (y # ys) =
     (case compareJsonValues E x y of
        None \<Rightarrow> None
      | Some comparison \<Rightarrow>
          if comparison \<noteq> Fin 0 then Some comparison else compareElems E xs ys)"

text \<open>
  The comparable pairs: both values null or undefined, or one of them; two finite
  numbers, each a double; two strings; two booleans; two arrays whose elements, read as
  undefined beyond the end, are comparable index by index.  These are the pairs that
  compareJsonValues decides by its rules for null, numbers, strings, booleans and arrays.
\<close>

fun finiteNumber :: "jsval \<Rightarrow> bool" where
  "finiteNumber (JNum (Fin x)) = isDouble x"
| "finiteNumber v = False"

fun isString :: "jsval \<Rightarrow> bool" where
  "isString (JStr s) = True"
| "isString v = False"

fun isBoolean :: "jsval \<Rightarrow> bool" where
  "isBoolean (JBool b) = True"
| "isBoolean v = False"

definition comparableScalars :: "jsenv \<Rightarrow> jsval \<Rightarrow> jsval \<Rightarrow> bool" where
  "comparableScalars E a b =
     (nullish a \<or> nullish b
      \<or> (finiteNumber a \<and> finiteNumber b)
      \<or> (isString a \<and> isString b)
      \<or> (isBoolean a \<and> isBoolean b))"

fun comparable :: "jsenv \<Rightarrow> jsval \<Rightarrow> jsval \<Rightarrow> bool"
  and comparableElems :: "jsenv \<Rightarrow> jsval list \<Rightarrow> jsval list \<Rightarrow> bool" where
  "comparable E (JArr r xs) (JArr r' ys) = comparableElems E xs ys"
| "comparable E a b = comparableScalars E a b"
| "comparableElems E [] [] = True"
| "comparableElems E (x # xs) [] = (comparable E x JUndefined \<and> comparableElems E xs [])"
| "comparableElems E [] (y # ys) = (comparable E JUndefined y \<and> comparableElems E [] ys)"
| "comparableElems E (x # xs) (y # ys) = (comparable E x y \<and> comparableElems E xs ys)"

text \<open>
  Two values are tied when they are the same up to null, undefined and missing array
  elements: null and undefined are tied with each other, two numbers or two booleans
  only when they are equal, two strings when the host's collation does not tell them
  apart, two arrays when they are tied index by index, an index beyond the end reading
  as undefined.
\<close>

definition tiedScalars :: "jsenv \<Rightarrow> jsval \<Rightarrow> jsval \<Rightarrow> bool" where
  "tiedScalars E a b =
     (case (a, b) of
        (JNum x, JNum y) \<Rightarrow> x = y
      | (JStr s, JStr t) \<Rightarrow> localeCompare E s t = 0
      | (JBool x, JBool y) \<Rightarrow> x = y
      | _ \<Rightarrow> nullish a \<and> nullish b)"

fun tied :: "jsenv \<Rightarrow> jsval \<Rightarrow> jsval \<Rightarrow> bool"
  and tiedElems :: "jsenv \<Rightarrow> jsval list \<Rightarrow> jsval list \<Rightarrow> bool" where
  "tied E (JArr r xs) (JArr r' ys) = tiedElems E xs ys"
| "tied E a b = tiedScalars E a b"
| "tiedElems E [] [] = True"
| "tiedElems E (x # xs) [] = (tied E x JUndefined \<and> tiedElems E xs [])"
| "tiedElems E [] (y # ys) = (tied E JUndefined y \<and> tiedElems E [] ys)"
| "tiedElems E (x # xs) (y # ys) = (tied E x y \<and> tiedElems E xs ys)"

text \<open>The sign of a comparison result; NaN has none and is given 0.\<close>

fun signOf :: "jsnum \<Rightarrow> rat" where
  "signOf (Fin p) = sgn p"
| "signOf PosInf = 1"
| "signOf NegInf = - 1"
| "signOf NaN = 0"

text \<open>The multiples of the smallest subnormal; every double is one.\<close>

definition grid :: "rat \<Rightarrow> bool" where
  "grid d = (d / pow2 (- 1074) = of_int \<lfloor>d / pow2 (- 1074)\<rfloor>)"

text \<open>
  What a sort comparator needs of the host's string collation: swapping the operands
  flips the sign, and "not after" is transitive.
\<close>

definition collation :: "(string \<Rightarrow> string \<Rightarrow> int) \<Rightarrow> bool" where
  "collation lc =
     ((\<forall>s t. sgn (lc s t) = - sgn (lc t s))
      \<and> (\<forall>s t u. lc s t \<le> 0 \<and> lc t u \<le> 0 \<longrightarrow> lc s u \<le> 0))"

text \<open>
  The signs \<open>p\<close>, \<open>q\<close>, \<open>r\<close> of comparing a with b, b with c and a with c agree with a
  total preorder.
\<close>

definition consistent :: "rat \<Rightarrow> rat \<Rightarrow> rat \<Rightarrow> bool" where
  "consistent p q r =
     ((p \<le> 0 \<and> q \<le> 0 \<longrightarrow> r \<le> 0) \<and> (0 \<le> p \<and> 0 \<le> q \<longrightarrow> 0 \<le> r)
      \<and> (p < 0 \<and> q \<le> 0 \<longrightarrow> r < 0) \<and> (p \<le> 0 \<and> q < 0 \<longrightarrow> r < 0)
      \<and> (0 < p \<and> 0 \<le> q \<longrightarrow> 0 < r) \<and> (0 \<le> p \<and> 0 < q \<longrightarrow> 0 < r))"

text \<open>
  An environment for the examples: strings ordered by their code units, a
  \<^verbatim>\<open>String\<close> that is good for null and booleans only, and a \<^verbatim>\<open>BigInt\<close> that
  accepts integral finite numbers and nothing else.
\<close>

definition codeUnitCompare :: "string \<Rightarrow> string \<Rightarrow> int" where
  "codeUnitCompare s t = (if s < t then - 1 else if s = t then 0 else 1)"

fun exampleString :: "jsval \<Rightarrow> string" where
  "exampleString JNull = ''null''"
| "exampleString JUndefined = ''undefined''"
| "exampleString (JBool b) = (if b then ''true'' else ''false'')"
| "exampleString v = ''[object Object]''"

fun exampleBigInt :: "jsval \<Rightarrow> int option" where
  "exampleBigInt (JNum (Fin x)) = (if x = of_int \<lfloor>x\<rfloor> then Some \<lfloor>x\<rfloor> else None)"
| "exampleBigInt v = None"

definition exampleEnv :: jsenv where
  "exampleEnv = \<lparr>localeCompare = codeUnitCompare, toStr = exampleString,
                 toBigInt = exampleBigInt\<rparr>"

text \<open>The element at the head of an array, \<^verbatim>\<open>undefined\<close> when there is none.\<close>

definition hdU :: "jsval list \<Rightarrow> jsval" where
  "hdU xs = (case xs of [] \<Rightarrow> JUndefined | x # r \<Rightarrow> x)"

text \<open>
  A value is well formed when no object in it has two properties of the same name, as
  is the case for every JavaScript object.
\<close>

fun wellFormed :: "jsval \<Rightarrow> bool"
  and wellFormedElems :: "jsval list \<Rightarrow> bool"
  and wellFormedProps :: "(string \<times> jsval) list \<Rightarrow> bool" where
  "wellFormed (JArr r xs) = wellFormedElems xs"
| "wellFormed (JObj r kvs) = (distinct (map fst kvs) \<and> wellFormedProps kvs)"
| "wellFormed v = True"
| "wellFormedElems [] = True"
| "wellFormedElems (x # xs) = (wellFormed x \<and> wellFormedElems xs)"
| "wellFormedProps [] = True"
| "wellFormedProps ((key, v) # kvs) = (wellFormed v \<and> wellFormedProps kvs)"


section \<open>Properties of the one-shot query\<close>

lemma onUpdateCallback_resolved:
  "resolved s \<Longrightarrow> foldl (\<lambda>s v. onUpdateCallback v s) s vs = s"
  by (induction vs) (simp_all add: onUpdateCallback_def)

text \<open>
  C9.  Whenever the live subscription pushes at least one value, the promise of
  executeQueryViaSubscription is resolved with the first pushed value, unsubscribe has
  been called exactly once already when that first value has been handled, and later
  pushes change nothing: the final state is the state after the first push.
\<close>

theorem executeQueryViaSubscription_first_value:
  "executeQueryViaSubscription [v] =
      \<lparr>resolved = True, unsubscribeCalls = 1, promise = Some v\<rparr>
   \<and> executeQueryViaSubscription (v # vs) = executeQueryViaSubscription [v]
   \<and> promise (executeQueryViaSubscription (v # vs)) = Some v
   \<and> unsubscribeCalls (executeQueryViaSubscription (v # vs)) = 1"
proof -
  have first: "onUpdateCallback v oneShotInit =
      \<lparr>resolved = True, unsubscribeCalls = 1, promise = Some v\<rparr>"
    by (simp add: onUpdateCallback_def oneShotInit_def resolve_def)
  have rest: "foldl (\<lambda>s v. onUpdateCallback v s) (onUpdateCallback v oneShotInit) vs
      = onUpdateCallback v oneShotInit"
    by (rule onUpdateCallback_resolved) (simp add: first)
  have one: "executeQueryViaSubscription [v] = onUpdateCallback v oneShotInit"
    by (simp add: executeQueryViaSubscription_def)
  have more: "executeQueryViaSubscription (v # vs) = onUpdateCallback v oneShotInit"
    using rest by (simp add: executeQueryViaSubscription_def)
  show ?thesis
    unfolding one more first by simp
qed

section \<open>Properties of the token coordinator\<close>

lemma truthy_Some: "truthy t \<Longrightarrow> \<exists>y. t = Some y"
  by (cases t) simp_all

lemma fetchToken_cached:
  "truthy (convexToken s) \<Longrightarrow> now - lastTokenValidation s < TOKEN_CACHE_MS \<Longrightarrow>
   fetchToken jwtUser net now later True s = (convexToken s, s)"
  by (simp add: fetchToken_def)

lemma fetchToken_part_002_cached:
  "truthy (convexToken s) \<Longrightarrow> now - lastTokenValidation s < TOKEN_CACHE_MS \<Longrightarrow>
   fetchToken_part_002 net now later True s = (convexToken s, s)"
  by (simp add: fetchToken_part_002_def)

lemma fetchToken_stale:
  "truthy (convexToken s) \<Longrightarrow> TOKEN_CACHE_MS \<le> now - lastTokenValidation s \<Longrightarrow>
   networkCalls (snd (fetchToken jwtUser net now later True s)) = networkCalls s + 1"
  by (simp add: fetchToken_def Let_def split: tokenOutcome.splits option.splits)

lemma fetchToken_part_002_stale:
  "truthy (convexToken s) \<Longrightarrow> TOKEN_CACHE_MS \<le> now - lastTokenValidation s \<Longrightarrow>
   networkCalls (snd (fetchToken_part_002 net now later True s)) = networkCalls s + 1"
  by (simp add: fetchToken_part_002_def Let_def split: tokenOutcome.splits)

text \<open>
  C2.  With a token present and forceRefresh true, both copies of fetchToken behave alike.
  The window is 10 000 ms, the default TTL.  Below the window the cached token is returned
  and the whole state, the count of network calls included, is unchanged.  At or beyond the
  window exactly one network call is made.
\<close>

theorem fetchToken_force_refresh_window:
  assumes "truthy (convexToken s)"
  shows "TOKEN_CACHE_MS = 10000 \<and> TOKEN_CACHE_MS = DEFAULT_TOKEN_CACHE_TTL_MS
   \<and> (now - lastTokenValidation s < DEFAULT_TOKEN_CACHE_TTL_MS \<longrightarrow>
        fetchToken jwtUser net now later True s = (convexToken s, s)
      \<and> fetchToken_part_002 net now later True s = (convexToken s, s))
   \<and> (DEFAULT_TOKEN_CACHE_TTL_MS \<le> now - lastTokenValidation s \<longrightarrow>
        networkCalls (snd (fetchToken jwtUser net now later True s)) = networkCalls s + 1
      \<and> networkCalls (snd (fetchToken_part_002 net now later True s)) = networkCalls s + 1)"
proof -
  have ttl: "TOKEN_CACHE_MS = DEFAULT_TOKEN_CACHE_TTL_MS"
    by (simp add: TOKEN_CACHE_MS_def DEFAULT_TOKEN_CACHE_TTL_MS_def)
  show ?thesis
    using assms fetchToken_cached [of s now jwtUser net later]
      fetchToken_part_002_cached [of s now net later]
      fetchToken_stale [of s now jwtUser net later]
      fetchToken_part_002_stale [of s now net later]
    unfolding ttl [symmetric] by (simp add: TOKEN_CACHE_MS_def)
qed

text \<open>
  The two elapsed times of the specification, 3000 ms and 11 000 ms, on a token
  validated at time 0.
\<close>

theorem fetchToken_force_refresh_window_witness:
  "truthy (convexToken hydrated)
   \<and> fetchToken (\<lambda>t. None) Throws 3000 3001 True hydrated = (Some ''jwt-1'', hydrated)
   \<and> fetchToken_part_002 Throws 3000 3001 True hydrated = (Some ''jwt-1'', hydrated)
   \<and> networkCalls (snd (fetchToken (\<lambda>t. None) (Responds False (Some ''jwt-2'')) 11000 11001 True hydrated)) = 1
   \<and> networkCalls (snd (fetchToken_part_002 (Responds False (Some ''jwt-2'')) 11000 11001 True hydrated)) = 1"
proof -
  have t: "truthy (convexToken hydrated)"
    by (simp add: hydrated_def)
  have tok: "convexToken hydrated = Some ''jwt-1''" and calls: "networkCalls hydrated = 0"
    by (simp_all add: hydrated_def)
  have early: "3000 - lastTokenValidation hydrated < DEFAULT_TOKEN_CACHE_TTL_MS"
    by (simp add: hydrated_def DEFAULT_TOKEN_CACHE_TTL_MS_def)
  have late: "DEFAULT_TOKEN_CACHE_TTL_MS \<le> 11000 - lastTokenValidation hydrated"
    by (simp add: hydrated_def DEFAULT_TOKEN_CACHE_TTL_MS_def)
  from fetchToken_force_refresh_window [OF t, of 3000 "\<lambda>t. None" Throws 3001] early
  have a: "fetchToken (\<lambda>t. None) Throws 3000 3001 True hydrated = (convexToken hydrated, hydrated)
      \<and> fetchToken_part_002 Throws 3000 3001 True hydrated = (convexToken hydrated, hydrated)"
    by blast
  from fetchToken_force_refresh_window
    [OF t, of 11000 "\<lambda>t. None" "Responds False (Some ''jwt-2'')" 11001] late
  have b: "networkCalls (snd (fetchToken (\<lambda>t. None) (Responds False (Some ''jwt-2''))
        11000 11001 True hydrated)) = networkCalls hydrated + 1
      \<and> networkCalls (snd (fetchToken_part_002 (Responds False (Some ''jwt-2''))
        11000 11001 True hydrated)) = networkCalls hydrated + 1"
    by blast
  from t a b show ?thesis
    unfolding tok calls by simp
qed

text \<open>
  C3, as stated, fails on fetchToken of src/runtime/plugin.client.ts: with no token and no
  identity at all it still asks the auth server, once, and returns the token it is given.
\<close>

theorem fetchToken_no_state_counterexample:
  "convexToken unauthenticated = None \<and> convexUser unauthenticated = None
   \<and> fst (fetchToken (\<lambda>t. None) (Responds False (Some ''jwt-2'')) 5 6 False
            (unauthenticated :: string authState)) = Some ''jwt-2''
   \<and> networkCalls (snd (fetchToken (\<lambda>t. None) (Responds False (Some ''jwt-2'')) 5 6 False
            (unauthenticated :: string authState))) = 1"
  by (simp add: fetchToken_def unauthenticated_def Let_def)

text \<open>
  C3, amended.  Without a token and without an identity, fetchToken of
  src/unnamed/part_002 returns null and leaves the state, the count of network calls
  included, unchanged.  fetchToken of src/runtime/plugin.client.ts has no such guard (it
  also serves sessions that were not rendered on the server): it makes exactly one network
  call and returns null exactly when that call fails.
\<close>

theorem fetchToken_no_state:
  assumes "\<not> truthy (convexToken s)" and "convexUser s = None"
  shows "fetchToken_part_002 net now later forceRefreshToken s = (None, s)
   \<and> networkCalls (snd (fetchToken jwtUser net now later forceRefreshToken s)) = networkCalls s + 1
   \<and> (fst (fetchToken jwtUser net now later forceRefreshToken s) = None) = fetchFailed net"
proof -
  have old: "fetchToken_part_002 net now later forceRefreshToken s = (None, s)"
    using assms by (simp add: fetchToken_part_002_def Let_def)
  have calls: "networkCalls (snd (fetchToken jwtUser net now later forceRefreshToken s))
      = networkCalls s + 1"
    using assms(1)
    by (cases net) (simp_all add: fetchToken_def Let_def split: option.splits)
  have res: "(fst (fetchToken jwtUser net now later forceRefreshToken s) = None) = fetchFailed net"
    using assms(1)
    by (cases net) (auto simp add: fetchToken_def Let_def split: option.splits dest: truthy_Some)
  from old calls res show ?thesis by simp
qed

theorem fetchToken_no_state_witness:
  "\<not> truthy (convexToken unauthenticated) \<and> convexUser unauthenticated = None
   \<and> fetchToken_part_002 Throws 5 6 True (unauthenticated :: string authState)
       = (None, unauthenticated)
   \<and> networkCalls (snd (fetchToken (\<lambda>t. None) Throws 5 6 True
       (unauthenticated :: string authState))) = 1"
proof -
  have a: "\<not> truthy (convexToken (unauthenticated :: string authState))"
    by (simp add: unauthenticated_def)
  have b: "convexUser (unauthenticated :: string authState) = None"
    by (simp add: unauthenticated_def)
  show ?thesis
    using a b fetchToken_no_state [OF a b, of Throws 5 6 True "\<lambda>t. None"]
    by (simp add: unauthenticated_def)
qed

text \<open>
  When the network call fails, fetchToken of src/runtime/plugin.client.ts clears the token
  and the identity and returns null.
\<close>

lemma fetchToken_failure_clears_both:
  assumes "fetchFailed net"
    and "fetchToken jwtUser net now later forceRefreshToken s = (r, s')"
    and "networkCalls s' \<noteq> networkCalls s"
  shows "r = None \<and> convexToken s' = None \<and> convexUser s' = None"
  using assms
  by (cases net) (auto simp add: fetchToken_def Let_def split: if_splits)

text \<open>
  C4 fails on fetchToken of src/unnamed/part_002.  A session with a token and an identity
  refreshes after the window and the call to the auth server throws: null is returned and
  the token is cleared, but the identity stays.  The same holds when the server answers
  with an error.
\<close>

theorem fetchToken_part_002_failure_keeps_user:
  "fetchToken_part_002 Throws 11000 11001 True hydrated
     = (None, \<lparr>convexToken = None, convexUser = Some ''ada'',
               lastTokenValidation = 0, networkCalls = 1\<rparr>)
   \<and> fetchToken_part_002 (Responds True None) 11000 11001 True hydrated
     = (None, \<lparr>convexToken = None, convexUser = Some ''ada'',
               lastTokenValidation = 0, networkCalls = 1\<rparr>)
   \<and> fetchToken (\<lambda>t. None) Throws 11000 11001 True hydrated
     = (None, \<lparr>convexToken = None, convexUser = None,
               lastTokenValidation = 0, networkCalls = 1\<rparr>)"
  by (simp add: fetchToken_part_002_def fetchToken_def hydrated_def Let_def TOKEN_CACHE_MS_def)

section \<open>Properties of the registry and of the binding\<close>

lemma cleanupSubscription_absent:
  "convexSubscriptions app key = None \<Longrightarrow> cleanupSubscription app key = app"
  by (simp add: cleanupSubscription_def)

lemma cleanupSubscription_removes:
  "convexSubscriptions (cleanupSubscription app key) key = None"
  by (simp add: cleanupSubscription_def split: option.splits)

lemma cleanupSubscription_present:
  "convexSubscriptions app key = Some t \<Longrightarrow>
   unsubscribeLog (cleanupSubscription app key) = unsubscribeLog app @ [t]"
  by (simp add: cleanupSubscription_def)

lemma registerSubscription_present:
  "convexSubscriptions app key = Some t \<Longrightarrow>
   convexSubscriptions (registerSubscription app key t') = convexSubscriptions app
   \<and> unsubscribeLog (registerSubscription app key t') = unsubscribeLog app"
  by (simp add: registerSubscription_def hasSubscription_def Let_def)

text \<open>
  C6.  While a teardown \<open>t\<close> is stored for a key, registering another one for that key
  changes nothing but the log of calls: the stored entries are as they were, so \<open>t\<close> is
  still the only teardown of the key;
  two calls of cleanup for the key then call \<open>t\<close> once and nothing else, and the entry is
  gone.
\<close>

theorem registerSubscription_dedup_cleanup_once:
  assumes "convexSubscriptions app key = Some t"
  shows "registerSubscription app key t' = app\<lparr>registerLog := registerLog app @ [key]\<rparr>
   \<and> convexSubscriptions (registerSubscription app key t') = convexSubscriptions app
   \<and> convexSubscriptions (registerSubscription app key t') key = Some t
   \<and> unsubscribeLog (cleanupSubscription (registerSubscription app key t') key)
       = unsubscribeLog app @ [t]
   \<and> unsubscribeLog (cleanupSubscription
         (cleanupSubscription (registerSubscription app key t') key) key)
       = unsubscribeLog app @ [t]
   \<and> \<not> hasSubscription (cleanupSubscription
         (cleanupSubscription (registerSubscription app key t') key) key) key"
proof -
  let ?r = "registerSubscription app key t'"
  have same: "convexSubscriptions ?r = convexSubscriptions app"
    and log: "unsubscribeLog ?r = unsubscribeLog app"
    using registerSubscription_present [OF assms] by simp_all
  have stored: "convexSubscriptions ?r key = Some t"
    using same assms by simp
  have once: "unsubscribeLog (cleanupSubscription ?r key) = unsubscribeLog app @ [t]"
    using cleanupSubscription_present [OF stored] log by simp
  have again: "cleanupSubscription (cleanupSubscription ?r key) key = cleanupSubscription ?r key"
    by (rule cleanupSubscription_absent) (rule cleanupSubscription_removes)
  have gone: "\<not> hasSubscription (cleanupSubscription ?r key) key"
    by (simp add: hasSubscription_def cleanupSubscription_removes)
  have noop: "?r = app\<lparr>registerLog := registerLog app @ [key]\<rparr>"
    using assms by (simp add: registerSubscription_def hasSubscription_def Let_def)
  show ?thesis
    unfolding again using noop same stored once gone by blast
qed

theorem registerSubscription_dedup_cleanup_once_witness:
  "convexSubscriptions (registerSubscription clientApp ''k'' 0) ''k'' = Some 0
   \<and> convexSubscriptions
        (registerSubscription (registerSubscription clientApp ''k'' 0) ''k'' 1) ''k'' = Some 0
   \<and> unsubscribeLog (cleanupSubscription (cleanupSubscription
        (registerSubscription (registerSubscription clientApp ''k'' 0) ''k'' 1) ''k'') ''k'')
       = [0]"
proof -
  have first: "convexSubscriptions (registerSubscription clientApp ''k'' 0) ''k'' = Some 0"
    by (simp add: registerSubscription_def hasSubscription_def clientApp_def Let_def)
  have log: "unsubscribeLog (registerSubscription clientApp ''k'' 0) = []"
    by (simp add: registerSubscription_def hasSubscription_def clientApp_def Let_def)
  note r = registerSubscription_dedup_cleanup_once [OF first, of 1]
  from r have stored: "convexSubscriptions
      (registerSubscription (registerSubscription clientApp ''k'' 0) ''k'' 1) ''k'' = Some 0"
    by (elim conjE)
  from r have "unsubscribeLog (cleanupSubscription (cleanupSubscription
        (registerSubscription (registerSubscription clientApp ''k'' 0) ''k'' 1) ''k'') ''k'')
       = unsubscribeLog (registerSubscription clientApp ''k'' 0) @ [0]"
    by (elim conjE)
  then have twice: "unsubscribeLog (cleanupSubscription (cleanupSubscription
        (registerSubscription (registerSubscription clientApp ''k'' 0) ''k'' 1) ''k'') ''k'')
       = [0]"
    unfolding log by simp
  from first stored twice show ?thesis
    by (intro conjI)
qed

text \<open>
  C10.  A binding whose setupSubscription finds an entry for its cache key opens no subscription and
  registers nothing: its handle stays null and the session is unchanged.  Its unmount hook
  then does nothing either, whatever the session \<open>app'\<close> has become by then: no
  unsubscribe call, no removal, the entry stays.
\<close>

theorem setupSubscription_reuses_existing_entry:
  assumes "args b = Args a" and "convex app"
    and "hasSubscription app (getCacheKey getQueryKey b)"
    and "unsubscribeFn b = None"
  shows "setupSubscription getQueryKey b app = (b, app)
   \<and> unsubscribeFn (fst (setupSubscription getQueryKey b app)) = None
   \<and> onUnmounted getQueryKey (fst (setupSubscription getQueryKey b app))
        (snd (setupSubscription getQueryKey b app)) = (b, app)
   \<and> onUnmounted getQueryKey (fst (setupSubscription getQueryKey b app)) app' = (b, app')
   \<and> hasSubscription (snd (onUnmounted getQueryKey b app)) (getCacheKey getQueryKey b)
   \<and> unsubscribeLog (snd (onUnmounted getQueryKey b app)) = unsubscribeLog app"
proof -
  have reuse: "setupSubscription getQueryKey b app = (b, app)"
    using assms(1,2,3) by (simp add: setupSubscription_def Let_def)
  have unmount: "onUnmounted getQueryKey b any = (b, any)" for any :: "'a nuxtApp"
    using assms(4) by (simp add: onUnmounted_def)
  show ?thesis
    unfolding reuse using unmount assms(3,4) by simp
qed

theorem setupSubscription_reuses_existing_entry_witness:
  "setupSubscription exampleKey (skippedBinding\<lparr>args := Args 5\<rparr>)
      (registerSubscription clientApp (exampleKey (Args 5)) 0)
     = (skippedBinding\<lparr>args := Args 5\<rparr>, registerSubscription clientApp (exampleKey (Args 5)) 0)
   \<and> onUnmounted exampleKey (skippedBinding\<lparr>args := Args 5\<rparr>)
      (registerSubscription clientApp (exampleKey (Args 5)) 0)
     = (skippedBinding\<lparr>args := Args 5\<rparr>, registerSubscription clientApp (exampleKey (Args 5)) 0)"
proof -
  let ?b = "skippedBinding\<lparr>args := Args 5\<rparr>"
  let ?app = "registerSubscription clientApp (exampleKey (Args 5)) 0"
  have a: "args ?b = Args 5" by simp
  have c: "convex ?app"
    by (simp add: registerSubscription_def clientApp_def Let_def)
  have k: "getCacheKey exampleKey ?b = exampleKey (Args 5)"
    by (simp add: getCacheKey_def)
  have h: "hasSubscription ?app (getCacheKey exampleKey ?b)"
    unfolding k by (simp add: registerSubscription_def hasSubscription_def clientApp_def Let_def)
  have u: "unsubscribeFn ?b = None"
    by (simp add: skippedBinding_def)
  note r = setupSubscription_reuses_existing_entry [OF a c h u, of ?app]
  from r have one: "setupSubscription exampleKey ?b ?app = (?b, ?app)"
    by (rule conjunct1)
  from r have "onUnmounted exampleKey (fst (setupSubscription exampleKey ?b ?app))
        (snd (setupSubscription exampleKey ?b ?app)) = (?b, ?app)"
    by (elim conjE) assumption
  then have two: "onUnmounted exampleKey ?b ?app = (?b, ?app)"
    unfolding one fst_conv snd_conv .
  from one two show ?thesis
    by (rule conjI)
qed

lemma handler_skip: "args b = Skip \<Longrightarrow> handler b app = (Inr ResolvedUndefined, app)"
  by (simp add: handler_def)

lemma setupSubscription_skip: "args b = Skip \<Longrightarrow> setupSubscription getQueryKey b app = (b, app)"
  by (simp add: setupSubscription_def)

lemma handler_client_fetch:
  assumes "args b = Args a" and "\<not> isServer app" and "convexUrl app" and "convex app"
    and "\<not> onUpdateThrows app"
  shows "snd (handler b app) = app\<lparr>onUpdateLog := onUpdateLog app @ [(FirstResult, a)]\<rparr>"
  using assms by (simp add: handler_def)

lemma setupSubscription_fresh:
  assumes "args b = Args a" and "convex app" and "\<not> onUpdateThrows app"
    and "convexSubscriptions app (getQueryKey (Args a)) = None"
  shows "setupSubscription getQueryKey b app =
     (b\<lparr>unsubscribeFn := Some (length (onUpdateLog app))\<rparr>,
      app\<lparr>onUpdateLog := onUpdateLog app @ [(LiveFeed, a)],
          registerLog := registerLog app @ [getQueryKey (Args a)],
          convexSubscriptions :=
            (convexSubscriptions app)(getQueryKey (Args a) \<mapsto> length (onUpdateLog app))\<rparr>)"
  using assms
  by (simp add: setupSubscription_def getCacheKey_def hasSubscription_def
      registerSubscription_def Let_def)

lemma setupSubscription_present:
  assumes "args b = Args a" and "convex app"
    and "convexSubscriptions app (getQueryKey (Args a)) = Some t"
  shows "setupSubscription getQueryKey b app = (b, app)"
  using assms
  by (simp add: setupSubscription_def getCacheKey_def hasSubscription_def Let_def)

lemma cleanupSubscription_other:
  "key' \<noteq> key \<Longrightarrow>
   convexSubscriptions (cleanupSubscription app key) key' = convexSubscriptions app key'"
  by (simp add: cleanupSubscription_def split: option.splits)

lemma cleanupSubscription_frame:
  "isServer (cleanupSubscription app key) = isServer app
   \<and> convexUrl (cleanupSubscription app key) = convexUrl app
   \<and> convex (cleanupSubscription app key) = convex app
   \<and> onUpdateThrows (cleanupSubscription app key) = onUpdateThrows app
   \<and> httpLog (cleanupSubscription app key) = httpLog app
   \<and> onUpdateLog (cleanupSubscription app key) = onUpdateLog app
   \<and> registerLog (cleanupSubscription app key) = registerLog app"
  by (simp add: cleanupSubscription_def split: option.splits)

text \<open>
  C5, as stated, fails when the key of the new arguments is already registered.  In
  \<open>sharedApp\<close> another binding holds the live feed for \<open>Args 5\<close>; a binding that leaves
  \<open>Skip\<close> for \<open>Args 5\<close> issues its one fetch, but registerSubscription is not called
  and the binding keeps no handle.
\<close>

theorem argsChange_from_skip_counterexample:
  "args skippedBinding = Skip
   \<and> registerLog sharedApp = [exampleKey (Args 5)]
   \<and> registerLog (snd (argsChange exampleKey exampleKey (Args 5) skippedBinding sharedApp))
       = registerLog sharedApp
   \<and> onUpdateLog (snd (argsChange exampleKey exampleKey (Args 5) skippedBinding sharedApp))
       = onUpdateLog sharedApp @ [(FirstResult, 5)]
   \<and> unsubscribeFn (fst (argsChange exampleKey exampleKey (Args 5) skippedBinding sharedApp))
       = None"
  by (simp add: sharedApp_def argsChange_def argsWatcher_def handler_def
      setupSubscription_def getCacheKey_def hasSubscription_def registerSubscription_def
      cleanupSubscription_def skippedBinding_def clientApp_def Let_def)

lemma argsChange_from_skip_unfold:
  assumes "args b = Skip" and "argsIsRef b" and "subscribe b" and "\<not> isServer app"
    and "convexUrl app" and "convex app" and "\<not> onUpdateThrows app"
    and "stableStringify (Args a) \<noteq> stableStringify Skip"
  shows "argsChange getQueryKey stableStringify (Args a) b app =
     setupSubscription getQueryKey (b\<lparr>args := Args a, unsubscribeFn := None\<rparr>)
       (cleanupSubscription (app\<lparr>onUpdateLog := onUpdateLog app @ [(FirstResult, a)]\<rparr>)
          (getQueryKey Skip))"
proof -
  have h: "snd (handler (b\<lparr>args := Args a\<rparr>) app)
      = app\<lparr>onUpdateLog := onUpdateLog app @ [(FirstResult, a)]\<rparr>"
    using assms(4-7) by (intro handler_client_fetch) simp_all
  show ?thesis
    using assms(1-4,8) unfolding argsChange_def Let_def h
    by (simp add: argsWatcher_def Let_def)
qed

text \<open>
  C5, amended.  While the arguments are \<open>Skip\<close> the handler resolves to undefined and
  leaves the session untouched (no request over HTTP, no call of onUpdate), and
  setupSubscription registers nothing.  When reactive arguments change from \<open>Skip\<close> to a
  concrete mapping, on a client with the live client available, exactly one fetch is
  issued.  If no entry is stored for the new cache key, exactly one live feed is opened and
  registered under that key; if an entry is stored, it is reused: registerSubscription is
  not called and the binding keeps no handle.
\<close>

theorem argsChange_from_skip:
  assumes "args b = Skip"
  shows "handler b app = (Inr ResolvedUndefined, app)
   \<and> setupSubscription getQueryKey b app = (b, app)
   \<and> (argsIsRef b \<and> subscribe b \<and> \<not> isServer app \<and> convexUrl app \<and> convex app
        \<and> \<not> onUpdateThrows app \<and> stableStringify (Args a) \<noteq> stableStringify Skip \<longrightarrow>
       httpLog (snd (argsChange getQueryKey stableStringify (Args a) b app)) = httpLog app
       \<and> (convexSubscriptions app (getQueryKey (Args a)) = None \<longrightarrow>
            onUpdateLog (snd (argsChange getQueryKey stableStringify (Args a) b app))
              = onUpdateLog app @ [(FirstResult, a), (LiveFeed, a)]
          \<and> registerLog (snd (argsChange getQueryKey stableStringify (Args a) b app))
              = registerLog app @ [getQueryKey (Args a)]
          \<and> convexSubscriptions (snd (argsChange getQueryKey stableStringify (Args a) b app))
                (getQueryKey (Args a)) = Some (length (onUpdateLog app) + 1)
          \<and> unsubscribeFn (fst (argsChange getQueryKey stableStringify (Args a) b app))
              = Some (length (onUpdateLog app) + 1))
       \<and> (convexSubscriptions app (getQueryKey (Args a)) \<noteq> None
            \<and> getQueryKey Skip \<noteq> getQueryKey (Args a) \<longrightarrow>
            onUpdateLog (snd (argsChange getQueryKey stableStringify (Args a) b app))
              = onUpdateLog app @ [(FirstResult, a)]
          \<and> registerLog (snd (argsChange getQueryKey stableStringify (Args a) b app))
              = registerLog app
          \<and> unsubscribeFn (fst (argsChange getQueryKey stableStringify (Args a) b app))
              = None))"
proof (intro conjI impI)
  show "handler b app = (Inr ResolvedUndefined, app)"
    using assms by (rule handler_skip)
  show "setupSubscription getQueryKey b app = (b, app)"
    using assms by (rule setupSubscription_skip)
next
  let ?app1 = "app\<lparr>onUpdateLog := onUpdateLog app @ [(FirstResult, a)]\<rparr>"
  let ?app2 = "cleanupSubscription ?app1 (getQueryKey Skip)"
  let ?b2 = "b\<lparr>args := Args a, unsubscribeFn := None\<rparr>"
  let ?R = "argsChange getQueryKey stableStringify (Args a) b app"
  assume pre: "argsIsRef b \<and> subscribe b \<and> \<not> isServer app \<and> convexUrl app \<and> convex app
        \<and> \<not> onUpdateThrows app \<and> stableStringify (Args a) \<noteq> stableStringify Skip"
  then have R: "?R = setupSubscription getQueryKey ?b2 ?app2"
    using assms by (intro argsChange_from_skip_unfold) simp_all
  have frame: "convex ?app2" "\<not> onUpdateThrows ?app2" "httpLog ?app2 = httpLog app"
    "onUpdateLog ?app2 = onUpdateLog app @ [(FirstResult, a)]"
    "registerLog ?app2 = registerLog app"
    using pre by (simp_all add: cleanupSubscription_frame)
  have b2: "args ?b2 = Args a" by simp
  have http: "httpLog (snd (setupSubscription getQueryKey ?b2 ?app2)) = httpLog ?app2"
    by (simp add: setupSubscription_def registerSubscription_def Let_def)
  show "httpLog (snd ?R) = httpLog app"
    unfolding R http by (rule frame(3))
  {
    assume fresh: "convexSubscriptions app (getQueryKey (Args a)) = None"
    have none: "convexSubscriptions ?app2 (getQueryKey (Args a)) = None"
    proof (cases "getQueryKey (Args a) = getQueryKey Skip")
      case True
      then show ?thesis by (simp add: cleanupSubscription_removes)
    next
      case False
      then show ?thesis using fresh by (simp add: cleanupSubscription_other)
    qed
    note s = setupSubscription_fresh [of ?b2 a ?app2 getQueryKey, OF b2 frame(1) frame(2) none]
    show "onUpdateLog (snd ?R) = onUpdateLog app @ [(FirstResult, a), (LiveFeed, a)]"
      unfolding R s by (simp add: frame)
    show "registerLog (snd ?R) = registerLog app @ [getQueryKey (Args a)]"
      unfolding R s by (simp add: frame)
    show "convexSubscriptions (snd ?R) (getQueryKey (Args a)) = Some (length (onUpdateLog app) + 1)"
      unfolding R s by (simp add: frame)
    show "unsubscribeFn (fst ?R) = Some (length (onUpdateLog app) + 1)"
      unfolding R s by (simp add: frame)
  }
  {
    assume "convexSubscriptions app (getQueryKey (Args a)) \<noteq> None
            \<and> getQueryKey Skip \<noteq> getQueryKey (Args a)"
    then obtain t where t: "convexSubscriptions app (getQueryKey (Args a)) = Some t"
      and ne: "getQueryKey (Args a) \<noteq> getQueryKey Skip"
      by auto
    have some: "convexSubscriptions ?app2 (getQueryKey (Args a)) = Some t"
      using t ne by (simp add: cleanupSubscription_other)
    note s = setupSubscription_present [of ?b2 a ?app2 getQueryKey t, OF b2 frame(1) some]
    show "onUpdateLog (snd ?R) = onUpdateLog app @ [(FirstResult, a)]"
      unfolding R s by (simp add: frame)
    show "registerLog (snd ?R) = registerLog app"
      unfolding R s by (simp add: frame)
    show "unsubscribeFn (fst ?R) = None"
      unfolding R s by simp
  }
qed

theorem argsChange_from_skip_witness:
  "args skippedBinding = Skip
   \<and> handler skippedBinding clientApp = (Inr ResolvedUndefined, clientApp)
   \<and> setupSubscription exampleKey skippedBinding clientApp = (skippedBinding, clientApp)
   \<and> onUpdateLog (snd (argsChange exampleKey exampleKey (Args 5) skippedBinding clientApp))
       = [(FirstResult, 5), (LiveFeed, 5)]
   \<and> registerLog (snd (argsChange exampleKey exampleKey (Args 5) skippedBinding clientApp))
       = [exampleKey (Args 5)]
   \<and> unsubscribeFn (fst (argsChange exampleKey exampleKey (Args 5) skippedBinding clientApp))
       = Some 1
   \<and> registerLog (snd (argsChange exampleKey exampleKey (Args 5) skippedBinding sharedApp))
       = registerLog sharedApp"
proof -
  have skip: "args skippedBinding = Skip"
    by (simp add: skippedBinding_def)
  have ne: "exampleKey (Args 5) \<noteq> exampleKey Skip" "exampleKey Skip \<noteq> exampleKey (Args 5)"
    by simp_all
  have shared: "sharedApp = clientApp\<lparr>onUpdateLog := [(LiveFeed, 5)],
      registerLog := [exampleKey (Args 5)],
      convexSubscriptions := [exampleKey (Args 5) \<mapsto> 0]\<rparr>"
    unfolding sharedApp_def
    by (subst setupSubscription_fresh [of _ 5]) (simp_all add: clientApp_def skippedBinding_def)
  have pre1: "argsIsRef skippedBinding \<and> subscribe skippedBinding \<and> \<not> isServer clientApp
      \<and> convexUrl clientApp \<and> convex clientApp \<and> \<not> onUpdateThrows clientApp
      \<and> exampleKey (Args 5) \<noteq> exampleKey Skip"
    using ne by (simp add: skippedBinding_def clientApp_def del: exampleKey.simps)
  have pre2: "argsIsRef skippedBinding \<and> subscribe skippedBinding \<and> \<not> isServer sharedApp
      \<and> convexUrl sharedApp \<and> convex sharedApp \<and> \<not> onUpdateThrows sharedApp
      \<and> exampleKey (Args 5) \<noteq> exampleKey Skip"
    using ne unfolding shared by (simp add: skippedBinding_def clientApp_def del: exampleKey.simps)
  have fresh: "convexSubscriptions clientApp (exampleKey (Args 5)) = None"
    by (simp add: clientApp_def)
  have present: "convexSubscriptions sharedApp (exampleKey (Args 5)) \<noteq> None
      \<and> exampleKey Skip \<noteq> exampleKey (Args 5)"
    using ne unfolding shared by (simp del: exampleKey.simps)
  have logs: "onUpdateLog clientApp = []" "registerLog clientApp = []"
    by (simp_all add: clientApp_def)
  note w1 = argsChange_from_skip [OF skip, of clientApp exampleKey exampleKey 5]
  note w2 = argsChange_from_skip [OF skip, of sharedApp exampleKey exampleKey 5]
  from w1 have a: "handler skippedBinding clientApp = (Inr ResolvedUndefined, clientApp)"
    and b: "setupSubscription exampleKey skippedBinding clientApp = (skippedBinding, clientApp)"
    by blast+
  from w1 pre1 fresh
  have c: "onUpdateLog (snd (argsChange exampleKey exampleKey (Args 5) skippedBinding clientApp))
        = onUpdateLog clientApp @ [(FirstResult, 5), (LiveFeed, 5)]"
    and d: "registerLog (snd (argsChange exampleKey exampleKey (Args 5) skippedBinding clientApp))
        = registerLog clientApp @ [exampleKey (Args 5)]"
    and e: "unsubscribeFn (fst (argsChange exampleKey exampleKey (Args 5) skippedBinding clientApp))
        = Some (length (onUpdateLog clientApp) + 1)"
    by blast+
  from w2 pre2 present
  have f: "registerLog (snd (argsChange exampleKey exampleKey (Args 5) skippedBinding sharedApp))
        = registerLog sharedApp"
    by blast
  from skip a b c d e f show ?thesis
    unfolding logs by (simp del: exampleKey.simps)
qed

section \<open>Properties of deep equality\<close>

lemma strictEq_refl: "strictEq x x = (x \<noteq> JNum NaN)"
  by (cases x) auto

text \<open>Every value other than the number NaN is deeply equal to itself.\<close>

lemma deepEqual_refl: "x \<noteq> JNum NaN \<Longrightarrow> deepEqual x x"
  by (simp add: strictEq_refl)

text \<open>
  C8 fails at the number NaN: \<^verbatim>\<open>NaN === NaN\<close> is false, NaN is neither null nor an
  array nor an object, so deepEqual falls through to its last line and returns false.  An
  array holding NaN is still equal to itself, by reference, but not to a copy of itself.
\<close>

theorem deepEqual_NaN_not_reflexive:
  "deepEqual (JNum NaN) (JNum NaN) = False
   \<and> deepEqual (JArr 1 [JNum NaN]) (JArr 1 [JNum NaN]) = True
   \<and> deepEqual (JArr 1 [JNum NaN]) (JArr 2 [JNum NaN]) = False"
  by simp

lemma wellFormedElems_iff: "wellFormedElems xs = (\<forall>x \<in> set xs. wellFormed x)"
  by (induction xs) simp_all

lemma wellFormedProps_iff: "wellFormedProps kvs = (\<forall>(k, v) \<in> set kvs. wellFormed v)"
  by (induction kvs) auto

declare deepEqual.simps [simp del]

lemma strictEq_sym: "strictEq a b = strictEq b a"
  by (cases a; cases b) auto

lemma deepEqual_unfold:
  "deepEqual a b =
     (strictEq a b \<or>
      (case (a, b) of
         (JArr r xs, JArr r' ys) \<Rightarrow> length xs = length ys \<and> deepEqualElems xs ys
       | (JObj r kvs, JObj r' kvs') \<Rightarrow> length kvs = length kvs' \<and> deepEqualProps kvs kvs'
       | _ \<Rightarrow> False))"
  by (cases a; cases b) (auto simp add: deepEqual.simps)

lemma deepEqualElems_iff:
  "length xs = length ys \<Longrightarrow> deepEqualElems xs ys = list_all2 deepEqual xs ys"
  by (induction xs ys rule: list_induct2) simp_all

lemma deepEqualProps_iff:
  "deepEqualProps kvs kvs' =
     (\<forall>(k, v) \<in> set kvs. \<exists>w. map_of kvs' k = Some w \<and> deepEqual v w)"
  by (induction kvs) (auto split: option.splits if_splits)

lemma map_of_distinct: "distinct (map fst kvs) \<Longrightarrow> (k, v) \<in> set kvs \<Longrightarrow> map_of kvs k = Some v"
  by simp

lemma same_keys:
  assumes "distinct (map fst kvs)" and "distinct (map fst kvs')"
    and "length kvs = length kvs'" and "fst ` set kvs \<subseteq> fst ` set kvs'"
  shows "fst ` set kvs = fst ` set kvs'"
proof -
  have "card (fst ` set kvs) = length kvs"
    using assms(1) distinct_card [of "map fst kvs"] by simp
  moreover have "card (fst ` set kvs') = length kvs'"
    using assms(2) distinct_card [of "map fst kvs'"] by simp
  ultimately have "card (fst ` set kvs') \<le> card (fst ` set kvs)"
    using assms(3) by simp
  with assms(4) show ?thesis
    by (intro card_seteq) simp_all
qed

lemma props_sym:
  assumes ih: "\<And>k v w. (k, v) \<in> set kvs \<Longrightarrow> wellFormed v \<Longrightarrow> wellFormed w \<Longrightarrow>
      deepEqual v w = deepEqual w v"
    and wf: "distinct (map fst kvs)" "distinct (map fst kvs')"
      "wellFormedProps kvs" "wellFormedProps kvs'"
    and len: "length kvs = length kvs'"
  shows "deepEqualProps kvs kvs' = deepEqualProps kvs' kvs"
proof
  assume l: "deepEqualProps kvs kvs'"
  then have sub: "fst ` set kvs \<subseteq> fst ` set kvs'"
    by (force simp add: deepEqualProps_iff dest: map_of_SomeD)
  from same_keys [OF wf(1,2) len sub] have keys: "fst ` set kvs = fst ` set kvs'" .
  show "deepEqualProps kvs' kvs"
    unfolding deepEqualProps_iff
  proof (clarify)
    fix k w
    assume kw: "(k, w) \<in> set kvs'"
    then have "k \<in> fst ` set kvs" using keys by force
    then obtain v where kv: "(k, v) \<in> set kvs" by auto
    with l obtain w' where w': "map_of kvs' k = Some w'" "deepEqual v w'"
      by (auto simp add: deepEqualProps_iff)
    from map_of_distinct [OF wf(2) kw] w'(1) have "w' = w" by simp
    with w'(2) have "deepEqual v w" by simp
    moreover have "wellFormed v" "wellFormed w"
      using wf(3,4) kv kw by (auto simp add: wellFormedProps_iff)
    ultimately have "deepEqual w v" using ih [OF kv] by simp
    with map_of_distinct [OF wf(1) kv] show "\<exists>v. map_of kvs k = Some v \<and> deepEqual w v"
      by blast
  qed
next
  assume r: "deepEqualProps kvs' kvs"
  then have sub: "fst ` set kvs' \<subseteq> fst ` set kvs"
    by (force simp add: deepEqualProps_iff dest: map_of_SomeD)
  from same_keys [OF wf(2,1) len [symmetric] sub] have keys: "fst ` set kvs' = fst ` set kvs" .
  show "deepEqualProps kvs kvs'"
    unfolding deepEqualProps_iff
  proof (clarify)
    fix k v
    assume kv: "(k, v) \<in> set kvs"
    then have "k \<in> fst ` set kvs'" using keys by force
    then obtain w where kw: "(k, w) \<in> set kvs'" by auto
    with r obtain v' where v': "map_of kvs k = Some v'" "deepEqual w v'"
      by (auto simp add: deepEqualProps_iff)
    from map_of_distinct [OF wf(1) kv] v'(1) have "v' = v" by simp
    with v'(2) have "deepEqual w v" by simp
    moreover have "wellFormed v" "wellFormed w"
      using wf(3,4) kv kw by (auto simp add: wellFormedProps_iff)
    ultimately have "deepEqual v w" using ih [OF kv] by simp
    with map_of_distinct [OF wf(2) kw] show "\<exists>w. map_of kvs' k = Some w \<and> deepEqual v w"
      by blast
  qed
qed

lemma elems_sym:
  assumes ih: "\<And>x y. x \<in> set xs \<Longrightarrow> wellFormed x \<Longrightarrow> wellFormed y \<Longrightarrow>
      deepEqual x y = deepEqual y x"
    and wf: "wellFormedElems xs" "wellFormedElems ys"
    and len: "length xs = length ys"
  shows "deepEqualElems xs ys = deepEqualElems ys xs"
proof -
  have "deepEqual (xs ! i) (ys ! i) = deepEqual (ys ! i) (xs ! i)" if "i < length xs" for i
  proof (rule ih)
    show "xs ! i \<in> set xs" using that by simp
    show "wellFormed (xs ! i)" using that wf(1) by (simp add: wellFormedElems_iff)
    show "wellFormed (ys ! i)" using that wf(2) len by (simp add: wellFormedElems_iff)
  qed
  then have "list_all2 deepEqual xs ys = list_all2 deepEqual ys xs"
    using len by (auto simp add: list_all2_conv_all_nth)
  then show ?thesis
    using len by (simp add: deepEqualElems_iff)
qed

lemma deepEqual_prim_sym:
  "\<not> isArray a \<Longrightarrow> (\<forall>r kvs. a \<noteq> JObj r kvs) \<Longrightarrow> deepEqual a b = deepEqual b a"
  by (cases a; cases b) (auto simp add: deepEqual_unfold)

text \<open>deepEqual is symmetric.\<close>

lemma deepEqual_sym:
  "wellFormed a \<Longrightarrow> wellFormed b \<Longrightarrow> deepEqual a b = deepEqual b a"
proof (induction a arbitrary: b)
  case (JArr r xs)
  show ?case
  proof (cases b)
    case (JArr r' ys)
    have "length xs = length ys \<Longrightarrow> deepEqualElems xs ys = deepEqualElems ys xs"
      using JArr.IH JArr.prems by (intro elems_sym) (simp_all add: JArr)
    then show ?thesis
      unfolding deepEqual_unfold [of "JArr r xs"] deepEqual_unfold [of b]
      by (auto simp add: JArr strictEq_sym)
  qed (simp_all add: deepEqual_unfold)
next
  case (JObj r kvs)
  show ?case
  proof (cases b)
    case b: (JObj r' kvs')
    have "length kvs = length kvs' \<Longrightarrow> deepEqualProps kvs kvs' = deepEqualProps kvs' kvs"
    proof (rule props_sym)
      fix k v w
      assume "(k, v) \<in> set kvs" "wellFormed v" "wellFormed w"
      then show "deepEqual v w = deepEqual w v"
        using JObj.IH by force
    qed (use JObj.prems b in simp_all)
    then show ?thesis
      unfolding deepEqual_unfold [of "JObj r kvs"] deepEqual_unfold [of b]
      by (auto simp add: b strictEq_sym)
  qed (simp_all add: deepEqual_unfold)
qed (simp_all add: deepEqual_prim_sym)

section \<open>Properties of the ordering\<close>

declare compareJsonValues.simps [simp del]

text \<open>
  Rounding and signs.  Every double is a multiple of the smallest subnormal, and so is
  the exact difference of two doubles; rounding such a difference keeps its sign and
  gives zero only for zero, also where it overflows.
\<close>

lemma pow2_pos: "0 < pow2 e"
  by (simp add: pow2_def)

lemma grid_alt: "grid d = (\<exists>n. d = rat_of_int n * pow2 (- 1074))"
proof
  assume "grid d"
  then have "d / pow2 (- 1074) = rat_of_int \<lfloor>d / pow2 (- 1074)\<rfloor>"
    by (simp only: grid_def)
  moreover have "pow2 (- 1074) \<noteq> 0" using pow2_pos [of "- 1074"] by simp
  ultimately have "d = rat_of_int \<lfloor>d / pow2 (- 1074)\<rfloor> * pow2 (- 1074)"
    by (simp add: field_simps)
  then show "\<exists>n. d = rat_of_int n * pow2 (- 1074)" ..
next
  assume "\<exists>n. d = rat_of_int n * pow2 (- 1074)"
  then obtain n where n: "d = rat_of_int n * pow2 (- 1074)" ..
  have "pow2 (- 1074) \<noteq> 0" using pow2_pos [of "- 1074"] by simp
  with n have "d / pow2 (- 1074) = rat_of_int n" by simp
  then show "grid d" by (simp add: grid_def)
qed

lemma pow2_Suc: "pow2 (a + 1) = 2 * pow2 a"
proof -
  consider "0 \<le> a" | "a = - 1" | "a < - 1" by linarith
  then show ?thesis
  proof cases
    case 1
    then have "nat (a + 1) = Suc (nat a)" by simp
    with 1 show ?thesis by (simp add: pow2_def)
  next
    case 2
    then show ?thesis by (simp add: pow2_def)
  next
    case 3
    then have "nat (- a) = Suc (nat (- (a + 1)))" by simp
    then have "(2::rat) ^ nat (- a) = 2 * 2 ^ nat (- (a + 1))" by simp
    with 3 show ?thesis by (simp add: pow2_def)
  qed
qed

lemma pow2_add_nat: "pow2 (a + int n) = 2 ^ n * pow2 a"
proof (induction n)
  case 0
  show ?case by simp
next
  case (Suc n)
  have "a + int (Suc n) = (a + int n) + 1" by simp
  then have "pow2 (a + int (Suc n)) = pow2 ((a + int n) + 1)" by (rule arg_cong)
  also have "\<dots> = 2 * pow2 (a + int n)" by (rule pow2_Suc)
  finally show ?case using Suc by simp
qed

lemma pow2_mono: "a \<le> b \<Longrightarrow> pow2 a \<le> pow2 b"
proof -
  assume "a \<le> b"
  then have "b = a + int (nat (b - a))" by simp
  then have "pow2 b = 2 ^ nat (b - a) * pow2 a" by (metis pow2_add_nat)
  moreover have "1 * pow2 a \<le> 2 ^ nat (b - a) * pow2 a"
    using pow2_pos [of a] by (intro mult_right_mono) simp_all
  ultimately show ?thesis by simp
qed

lemma pow2_shift: "0 \<le> a \<Longrightarrow> pow2 (a - 1074) = rat_of_int (2 ^ nat a) * pow2 (- 1074)"
proof -
  assume "0 \<le> a"
  then have "a - 1074 = - 1074 + int (nat a)" by simp
  then have "pow2 (a - 1074) = 2 ^ nat a * pow2 (- 1074)" by (metis pow2_add_nat)
  then show ?thesis by simp
qed

lemma floorlog2_le: "0 < m \<Longrightarrow> pow2 (floorlog2 m) \<le> m"
proof (cases "1 \<le> m")
  case True
  then have pos: "0 < \<lfloor>m\<rfloor>" by simp
  from bitlen_bounds [OF pos] have "2 ^ nat (bitlen \<lfloor>m\<rfloor> - 1) \<le> \<lfloor>m\<rfloor>" by simp
  then have "rat_of_int (2 ^ nat (bitlen \<lfloor>m\<rfloor> - 1)) \<le> rat_of_int \<lfloor>m\<rfloor>"
    by (simp only: of_int_le_iff)
  also have "\<dots> \<le> m" by simp
  finally have "(2::rat) ^ nat (bitlen \<lfloor>m\<rfloor> - 1) \<le> m" by simp
  moreover have "1 \<le> bitlen \<lfloor>m\<rfloor>" using pos by (auto simp add: bitlen_alt_def)
  ultimately show ?thesis using True by (simp add: floorlog2_def pow2_def)
next
  case False
  assume m: "0 < m"
  with False have inv: "1 < 1 / m" by simp
  let ?c = "\<lceil>1 / m\<rceil>"
  let ?t = "bitlen (?c - 1)"
  have c: "0 < ?c - 1" using inv by linarith
  from bitlen_bounds [OF c] have "?c - 1 < 2 ^ nat ?t" by simp
  then have "?c \<le> 2 ^ nat ?t" by simp
  then have "rat_of_int ?c \<le> rat_of_int (2 ^ nat ?t)" by (simp only: of_int_le_iff)
  moreover have "1 / m \<le> rat_of_int ?c" by simp
  ultimately have "1 / m \<le> rat_of_int (2 ^ nat ?t)" by (rule order_trans [rotated])
  then have le: "1 / m \<le> 2 ^ nat ?t" by simp
  have tpos: "0 \<le> ?t" by (rule bitlen_nonneg)
  from le m have "1 / 2 ^ nat ?t \<le> m"
    by (simp add: field_simps)
  then show ?thesis using False tpos
    by (auto simp add: floorlog2_def pow2_def)
qed

lemma roundHalfEven_ge_1: "1 \<le> q \<Longrightarrow> 1 \<le> roundHalfEven q"
proof -
  assume "1 \<le> q"
  then have "1 \<le> \<lfloor>q\<rfloor>" by simp
  then show ?thesis by (simp add: roundHalfEven_def Let_def)
qed

lemma toDouble_not_NaN: "toDouble d \<noteq> NaN"
  by (simp add: toDouble_def)

lemma grid_diff: "grid x \<Longrightarrow> grid y \<Longrightarrow> grid (x - y)"
proof -
  assume "grid x" "grid y"
  then obtain n k where "x = rat_of_int n * pow2 (- 1074)" "y = rat_of_int k * pow2 (- 1074)"
    by (auto simp add: grid_alt)
  then have "x - y = rat_of_int (n - k) * pow2 (- 1074)"
    by (simp add: algebra_simps)
  then show ?thesis unfolding grid_alt by blast
qed

lemma grid_ge: assumes "grid m" and "0 < m" shows "pow2 (- 1074) \<le> m"
proof -
  from assms(1) obtain n where n: "m = rat_of_int n * pow2 (- 1074)"
    by (auto simp add: grid_alt)
  with assms(2) pow2_pos [of "- 1074"] have "0 < rat_of_int n"
    by (simp add: zero_less_mult_iff)
  then have "1 \<le> rat_of_int n" by simp
  then have "1 * pow2 (- 1074) \<le> rat_of_int n * pow2 (- 1074)"
    using pow2_pos [of "- 1074"] by (intro mult_right_mono) simp_all
  with n show ?thesis by simp
qed

lemma ulp_le:
  assumes "grid m" and "0 < m"
  shows "pow2 (max (floorlog2 m) (- 1022) - 52) \<le> m"
proof (cases "- 1022 \<le> floorlog2 m")
  case True
  then have e: "max (floorlog2 m) (- 1022) = floorlog2 m" by simp
  have "pow2 (floorlog2 m - 52) \<le> pow2 (floorlog2 m)"
    by (rule pow2_mono) simp
  also have "\<dots> \<le> m" using assms(2) by (rule floorlog2_le)
  finally show ?thesis unfolding e .
next
  case False
  then have e: "max (floorlog2 m) (- 1022) - 52 = - 1074" by simp
  show ?thesis unfolding e using assms by (rule grid_ge)
qed


lemma abs_grid: "grid d \<Longrightarrow> grid \<bar>d\<bar>"
proof -
  assume "grid d"
  then obtain n where "d = rat_of_int n * pow2 (- 1074)" by (auto simp add: grid_alt)
  then have "\<bar>d\<bar> = rat_of_int \<bar>n\<bar> * pow2 (- 1074)"
    using pow2_pos [of "- 1074"] by (simp add: abs_mult)
  then show ?thesis unfolding grid_alt by blast
qed

lemma roundMagnitude_pos:
  assumes "grid m" and "0 < m"
  shows "0 < roundMagnitude m"
proof -
  let ?ulp = "pow2 (max (floorlog2 m) (- 1022) - 52)"
  have u: "0 < ?ulp" by (rule pow2_pos)
  have "?ulp \<le> m" using assms by (rule ulp_le)
  then have "1 \<le> m / ?ulp" using u by (simp add: le_divide_eq)
  then have "1 \<le> roundHalfEven (m / ?ulp)" by (rule roundHalfEven_ge_1)
  then have "0 < rat_of_int (roundHalfEven (m / ?ulp))" by simp
  then have "0 < rat_of_int (roundHalfEven (m / ?ulp)) * ?ulp"
    using u by (rule mult_pos_pos)
  then show ?thesis by (simp add: roundMagnitude_def Let_def)
qed

lemma roundMagnitude_grid: "grid (roundMagnitude m)"
proof -
  let ?e = "max (floorlog2 m) (- 1022)"
  let ?k = "roundHalfEven (m / pow2 (?e - 52))"
  have "?e - 52 = (?e + 1022) - 1074" by simp
  moreover have "0 \<le> ?e + 1022" by simp
  ultimately have u: "pow2 (?e - 52) = rat_of_int (2 ^ nat (?e + 1022)) * pow2 (- 1074)"
    using pow2_shift [of "?e + 1022"] by simp
  have "roundMagnitude m = rat_of_int ?k * pow2 (?e - 52)"
    by (simp add: roundMagnitude_def Let_def)
  also have "\<dots> = rat_of_int (?k * 2 ^ nat (?e + 1022)) * pow2 (- 1074)"
    unfolding u by simp
  finally show ?thesis unfolding grid_alt by blast
qed

lemma grid_minus: "grid x \<Longrightarrow> grid (- x)"
proof -
  assume "grid x"
  then obtain n where "x = rat_of_int n * pow2 (- 1074)" by (auto simp add: grid_alt)
  then have "- x = rat_of_int (- n) * pow2 (- 1074)" by simp
  then show ?thesis unfolding grid_alt by blast
qed

lemma grid_0: "grid 0"
proof -
  have "(0::rat) = rat_of_int 0 * pow2 (- 1074)" by simp
  then show ?thesis unfolding grid_alt by blast
qed

lemma toDouble_sign:
  assumes "grid d"
  shows "signOf (toDouble d) = sgn d"
proof (cases "d = 0")
  case True
  then show ?thesis by (simp add: toDouble_def)
next
  case False
  then have "0 < \<bar>d\<bar>" by simp
  with abs_grid [OF assms] have "0 < roundMagnitude \<bar>d\<bar>" by (rule roundMagnitude_pos)
  with False show ?thesis
    by (cases "0 < d") (simp_all add: toDouble_def sgn_if)
qed

lemma toDouble_grid: "toDouble d = Fin x \<Longrightarrow> grid x"
proof -
  assume "toDouble d = Fin x"
  then have "x = 0 \<or> x = roundMagnitude \<bar>d\<bar> \<or> x = - roundMagnitude \<bar>d\<bar>"
    by (auto simp add: toDouble_def split: if_splits)
  then show ?thesis
    using grid_0 roundMagnitude_grid [of "\<bar>d\<bar>"] grid_minus [OF roundMagnitude_grid, of "\<bar>d\<bar>"]
    by auto
qed

lemma isDouble_grid: "isDouble x \<Longrightarrow> grid x"
  unfolding isDouble_def by (rule toDouble_grid)

lemma double_minus_sign:
  "isDouble x \<Longrightarrow> isDouble y \<Longrightarrow> signOf (toDouble (x - y)) = sgn (x - y)"
proof -
  assume "isDouble x" "isDouble y"
  then have "grid x" "grid y" by (simp_all add: isDouble_grid)
  then have "grid (x - y)" by (rule grid_diff)
  then show ?thesis by (rule toDouble_sign)
qed

text \<open>The rules of compareJsonValues, one by one.\<close>

lemma cmp_arrays: "compareJsonValues E (JArr r xs) (JArr r' ys) = compareElems E xs ys"
  by (simp add: compareJsonValues.simps)

lemma cmp_nullish_both: "nullish a \<Longrightarrow> nullish b \<Longrightarrow> compareJsonValues E a b = Some (Fin 0)"
  by (cases a; cases b) (simp_all add: compareJsonValues.simps)

lemma cmp_nullish_left:
  "nullish a \<Longrightarrow> \<not> nullish b \<Longrightarrow> compareJsonValues E a b = Some (Fin (- 1))"
  by (cases a; cases b) (simp_all add: compareJsonValues.simps)

lemma cmp_nullish_right:
  "\<not> nullish a \<Longrightarrow> nullish b \<Longrightarrow> compareJsonValues E a b = Some (Fin 1)"
  by (cases a; cases b) (simp_all add: compareJsonValues.simps)

lemma cmp_numbers: "compareJsonValues E (JNum x) (JNum y) = Some (jsminus x y)"
  by (simp add: compareJsonValues.simps)

lemma cmp_doubles:
  "compareJsonValues E (JNum (Fin x)) (JNum (Fin y)) = Some (toDouble (x - y))"
  by (simp add: cmp_numbers)

lemma cmp_strings:
  "compareJsonValues E (JStr s) (JStr t) = Some (Fin (of_int (localeCompare E s t)))"
  by (simp add: compareJsonValues.simps)

lemma cmp_booleans:
  "compareJsonValues E (JBool x) (JBool y)
     = Some (Fin ((if x then 1 else 0) - (if y then 1 else 0)))"
  by (simp add: compareJsonValues.simps)

text \<open>
  Two \<^verbatim>\<open>$integer\<close> objects are handed to BigInt, and the comparison throws as soon as
  BigInt rejects one of the payloads.  The rule is commented as the one for the
  \<^verbatim>\<open>$integer\<close> format of convexToJson, whose payload is the base64 text of the
  integer's bytes and not a numeral that BigInt reads.  The ordering results below are
  about the other kinds of values and say nothing of these objects.
\<close>

lemma cmp_integers_throw:
  "hasInteger a \<Longrightarrow> hasInteger b \<Longrightarrow>
   toBigInt E (integerOf a) = None \<or> toBigInt E (integerOf b) = None \<Longrightarrow>
   compareJsonValues E a b = None"
  by (cases a; cases b) (auto simp add: compareJsonValues.simps split: option.splits)

lemma isDouble_1: "isDouble 1"
  by (simp add: isDouble_def toDouble_def roundMagnitude_def Let_def floorlog2_def pow2_def
      roundHalfEven_def overflowBound_def compute_bitlen)

lemma isDouble_2: "isDouble 2"
  by (simp add: isDouble_def toDouble_def roundMagnitude_def Let_def floorlog2_def pow2_def
      roundHalfEven_def overflowBound_def compute_bitlen)

lemma finiteNumber_num: "finiteNumber (JNum n) \<Longrightarrow> \<exists>x. n = Fin x \<and> isDouble x"
  by (cases n) simp_all

lemma comparable_cases:
  assumes "comparable E a b"
  shows "nullish a \<or> nullish b
    \<or> (\<exists>r xs r' ys. a = JArr r xs \<and> b = JArr r' ys \<and> comparableElems E xs ys)
    \<or> (\<exists>x y. a = JNum (Fin x) \<and> b = JNum (Fin y) \<and> isDouble x \<and> isDouble y)
    \<or> (\<exists>s t. a = JStr s \<and> b = JStr t)
    \<or> (\<exists>x y. a = JBool x \<and> b = JBool y)"
  using assms
  by (cases a; cases b)
     (auto simp add: comparableScalars_def dest!: finiteNumber_num)

lemma hdU_cases: "hdU xs \<in> set xs \<or> hdU xs = JUndefined"
  by (cases xs) (simp_all add: hdU_def)

lemma tl_shorter:
  "xs \<noteq> [] \<or> ys \<noteq> [] \<Longrightarrow> length (tl xs) + length (tl ys) < length xs + length ys"
  by (cases xs; cases ys) simp_all

lemma tl_shorter3:
  "xs \<noteq> [] \<or> ys \<noteq> [] \<or> zs \<noteq> [] \<Longrightarrow>
   length (tl xs) + length (tl ys) + length (tl zs) < length xs + length ys + length zs"
  by (cases xs; cases ys; cases zs) simp_all

lemma set_tl: "x \<in> set (tl xs) \<Longrightarrow> x \<in> set xs"
  by (cases xs) simp_all

lemma compareElems_unfold:
  "compareElems E xs ys =
     (case compareJsonValues E (hdU xs) (hdU ys) of
        None \<Rightarrow> None
      | Some c \<Rightarrow> if c \<noteq> Fin 0 then Some c else compareElems E (tl xs) (tl ys))"
  by (cases xs; cases ys) (auto simp add: hdU_def cmp_nullish_both split: option.splits)

lemma comparableElems_unfold:
  "comparableElems E xs ys =
     (comparable E (hdU xs) (hdU ys) \<and> comparableElems E (tl xs) (tl ys))"
  by (cases xs; cases ys) (simp_all add: hdU_def comparableScalars_def)

lemma tiedElems_unfold:
  "tiedElems E xs ys = (tied E (hdU xs) (hdU ys) \<and> tiedElems E (tl xs) (tl ys))"
  by (cases xs; cases ys) (simp_all add: hdU_def tiedScalars_def)

lemma compareElems_lex:
  assumes "compareJsonValues E (hdU xs) (hdU ys) = Some m0"
    and "compareElems E (tl xs) (tl ys) = Some m1"
  shows "compareElems E xs ys = Some (if m0 \<noteq> Fin 0 then m0 else m1)"
  using assms by (subst compareElems_unfold) simp

lemma compareElems_zero:
  "(compareElems E xs ys = Some (Fin 0)) =
     (compareJsonValues E (hdU xs) (hdU ys) = Some (Fin 0)
      \<and> compareElems E (tl xs) (tl ys) = Some (Fin 0))"
  by (subst compareElems_unfold) (auto split: option.splits)

lemma sign_zero_iff: "m \<noteq> NaN \<Longrightarrow> (m = Fin 0) = (signOf m = 0)"
  by (cases m) (auto simp add: sgn_if)

lemma sign_lex:
  "m0 \<noteq> NaN \<Longrightarrow>
   signOf (if m0 \<noteq> Fin 0 then m0 else m1) = (if signOf m0 \<noteq> 0 then signOf m0 else signOf m1)"
  by (simp add: sign_zero_iff)

lemma sgn_of_int_flip:
  "sgn i = - sgn j \<Longrightarrow> sgn (rat_of_int i) = - sgn (rat_of_int j)" for i j :: int
  by (auto simp add: sgn_if split: if_splits)

lemma scalars_antisym:
  assumes "comparable E a b" and "\<not> (isArray a \<and> isArray b)"
    and "collation (localeCompare E)"
  shows "\<exists>m n. compareJsonValues E a b = Some m \<and> compareJsonValues E b a = Some n
            \<and> m \<noteq> NaN \<and> n \<noteq> NaN \<and> signOf m = - signOf n"
proof -
  consider "nullish a" "nullish b" | "nullish a" "\<not> nullish b" | "\<not> nullish a" "nullish b"
    | "\<not> nullish a" "\<not> nullish b"
    by blast
  then show ?thesis
  proof cases
    case 1 then show ?thesis by (simp add: cmp_nullish_both)
  next
    case 2 then show ?thesis by (simp add: cmp_nullish_left cmp_nullish_right)
  next
    case 3 then show ?thesis by (simp add: cmp_nullish_left cmp_nullish_right)
  next
    case 4
    have str: "sgn (rat_of_int (localeCompare E s t)) = - sgn (rat_of_int (localeCompare E t s))"
      for s t
    proof -
      have "sgn (localeCompare E s t) = - sgn (localeCompare E t s)"
        using assms(3) unfolding collation_def by blast
      then show ?thesis by (rule sgn_of_int_flip)
    qed
    from comparable_cases [OF assms(1)] 4 assms(2)
    consider x y where "a = JNum (Fin x)" "b = JNum (Fin y)" "isDouble x" "isDouble y"
      | s t where "a = JStr s" "b = JStr t"
      | x y where "a = JBool x" "b = JBool y"
      by auto
    then show ?thesis
    proof cases
      case 1
      have "sgn (x - y) = - sgn (y - x)" by (simp add: sgn_if)
      then have "signOf (toDouble (x - y)) = - signOf (toDouble (y - x))"
        using 1(3,4) by (simp only: double_minus_sign)
      then show ?thesis
        unfolding 1(1,2) cmp_doubles using toDouble_not_NaN by blast
    next
      case 2
      show ?thesis unfolding 2 cmp_strings using str [of s t] by simp
    next
      case 3
      then show ?thesis by (simp add: cmp_booleans)
    qed
  qed
qed

lemma elems_antisym:
  assumes "collation (localeCompare E)"
  shows "(\<And>x y. x \<in> set xs \<Longrightarrow> comparable E x y \<Longrightarrow>
            \<exists>m n. compareJsonValues E x y = Some m \<and> compareJsonValues E y x = Some n
              \<and> m \<noteq> NaN \<and> n \<noteq> NaN \<and> signOf m = - signOf n) \<Longrightarrow>
         comparableElems E xs ys \<Longrightarrow>
         \<exists>m n. compareElems E xs ys = Some m \<and> compareElems E ys xs = Some n
           \<and> m \<noteq> NaN \<and> n \<noteq> NaN \<and> signOf m = - signOf n"
proof (induction "length xs + length ys" arbitrary: xs ys rule: less_induct)
  case less
  show ?case
  proof (cases "xs = [] \<and> ys = []")
    case True
    then show ?thesis by simp
  next
    case False
    from less.prems(2) have ch: "comparable E (hdU xs) (hdU ys)"
      and ct: "comparableElems E (tl xs) (tl ys)"
      using comparableElems_unfold [of E xs ys] by blast+
    have "\<exists>m n. compareJsonValues E (hdU xs) (hdU ys) = Some m
        \<and> compareJsonValues E (hdU ys) (hdU xs) = Some n
        \<and> m \<noteq> NaN \<and> n \<noteq> NaN \<and> signOf m = - signOf n"
    proof (cases "hdU xs \<in> set xs")
      case True
      then show ?thesis using ch by (rule less.prems(1))
    next
      case False
      with hdU_cases have "hdU xs = JUndefined" by blast
      then have "\<not> (isArray (hdU xs) \<and> isArray (hdU ys))" by simp
      from scalars_antisym [OF ch this assms] show ?thesis .
    qed
    then obtain m0 n0 where h: "compareJsonValues E (hdU xs) (hdU ys) = Some m0"
      "compareJsonValues E (hdU ys) (hdU xs) = Some n0" "m0 \<noteq> NaN" "n0 \<noteq> NaN"
      "signOf m0 = - signOf n0"
      by blast
    have shorter: "length (tl xs) + length (tl ys) < length xs + length ys"
      using False by (intro tl_shorter) blast
    have "\<exists>m n. compareElems E (tl xs) (tl ys) = Some m
        \<and> compareElems E (tl ys) (tl xs) = Some n
        \<and> m \<noteq> NaN \<and> n \<noteq> NaN \<and> signOf m = - signOf n"
      using shorter
    proof (rule less.hyps)
      show "comparableElems E (tl xs) (tl ys)" by (rule ct)
    next
      fix x y
      assume a: "x \<in> set (tl xs)" "comparable E x y"
      from a(1) have "x \<in> set xs" by (rule set_tl)
      then show "\<exists>m n. compareJsonValues E x y = Some m \<and> compareJsonValues E y x = Some n
          \<and> m \<noteq> NaN \<and> n \<noteq> NaN \<and> signOf m = - signOf n"
        using a(2) by (rule less.prems(1))
    qed
    then obtain m1 n1 where t: "compareElems E (tl xs) (tl ys) = Some m1"
      "compareElems E (tl ys) (tl xs) = Some n1" "m1 \<noteq> NaN" "n1 \<noteq> NaN"
      "signOf m1 = - signOf n1"
      by blast
    let ?m = "if m0 \<noteq> Fin 0 then m0 else m1"
    let ?n = "if n0 \<noteq> Fin 0 then n0 else n1"
    have z: "(signOf m0 = 0) = (signOf n0 = 0)" using h(5) by simp
    have s: "signOf ?m = - signOf ?n"
    proof (cases "signOf m0 = 0")
      case True
      with z have "signOf n0 = 0" by blast
      with True show ?thesis
        unfolding sign_lex [OF h(3)] sign_lex [OF h(4)] using t(5) by simp
    next
      case False
      with z have "signOf n0 \<noteq> 0" by blast
      with False show ?thesis
        unfolding sign_lex [OF h(3)] sign_lex [OF h(4)] using h(5) by simp
    qed
    have nn: "?m \<noteq> NaN" "?n \<noteq> NaN" using h(3,4) t(3,4) by simp_all
    from compareElems_lex [OF h(1) t(1)] compareElems_lex [OF h(2) t(2)] nn s
    show ?thesis by blast
  qed
qed

lemma compare_antisym:
  assumes "collation (localeCompare E)"
  shows "comparable E a b \<Longrightarrow>
         \<exists>m n. compareJsonValues E a b = Some m \<and> compareJsonValues E b a = Some n
           \<and> m \<noteq> NaN \<and> n \<noteq> NaN \<and> signOf m = - signOf n"
proof (induction a arbitrary: b)
  case (JArr r xs)
  show ?case
  proof (cases "isArray b")
    case True
    then obtain r' ys where b: "b = JArr r' ys" by (cases b) simp_all
    with JArr.prems have "comparableElems E xs ys" by simp
    from elems_antisym [OF assms JArr.IH this] show ?thesis
      by (simp add: cmp_arrays b)
  next
    case False
    then have "\<not> (isArray (JArr r xs) \<and> isArray b)" by simp
    from scalars_antisym [OF JArr.prems this assms] show ?thesis .
  qed
qed (rule scalars_antisym [OF _ _ assms]; simp)+

lemma compareElems_result:
  assumes "collation (localeCompare E)" and "comparableElems E xs ys"
  shows "\<exists>m. compareElems E xs ys = Some m \<and> m \<noteq> NaN"
proof -
  from assms(2) have "comparable E (JArr 0 xs) (JArr 0 ys)" by simp
  from compare_antisym [OF assms(1) this] show ?thesis
    by (auto simp add: cmp_arrays)
qed

text \<open>
  Transitivity.  The signs of three comparisons that agree with a total preorder still
  do so when the comparisons are combined lexicographically, which carries the property
  from the elements to the arrays.
\<close>

lemma consistent_lex:
  assumes "consistent p0 q0 r0" and "consistent p1 q1 r1"
  shows "consistent (if p0 \<noteq> 0 then p0 else p1) (if q0 \<noteq> 0 then q0 else q1)
           (if r0 \<noteq> 0 then r0 else r1)"
proof -
  consider "p0 < 0" | "p0 = 0" | "0 < p0" by linarith
  then show ?thesis
  proof cases
    case 1
    with assms show ?thesis
      by (cases "q0 = 0"; cases "r0 = 0") (auto simp add: consistent_def)
  next
    case 2
    with assms show ?thesis
      by (cases "q0 = 0"; cases "r0 = 0") (auto simp add: consistent_def)
  next
    case 3
    with assms show ?thesis
      by (cases "q0 = 0"; cases "r0 = 0") (auto simp add: consistent_def)
  qed
qed

lemma consistent_sgn: "consistent (sgn p) (sgn q) (sgn r) = consistent p q r"
  by (simp add: consistent_def sgn_if)

lemma consistent_diff: "consistent (x - y) (y - z) (x - z)"
  by (auto simp add: consistent_def)

lemma consistent_of_int:
  "consistent (rat_of_int i) (rat_of_int j) (rat_of_int k) =
     ((i \<le> 0 \<and> j \<le> 0 \<longrightarrow> k \<le> 0) \<and> (0 \<le> i \<and> 0 \<le> j \<longrightarrow> 0 \<le> k)
      \<and> (i < 0 \<and> j \<le> 0 \<longrightarrow> k < 0) \<and> (i \<le> 0 \<and> j < 0 \<longrightarrow> k < 0)
      \<and> (0 < i \<and> 0 \<le> j \<longrightarrow> 0 < k) \<and> (0 \<le> i \<and> 0 < j \<longrightarrow> 0 < k))"
  by (simp add: consistent_def)

lemma collation_consistent:
  assumes "collation lc"
  shows "consistent (rat_of_int (lc s t)) (rat_of_int (lc t u)) (rat_of_int (lc s u))"
proof -
  have flip: "sgn (lc a b) = - sgn (lc b a)" for a b
    using assms unfolding collation_def by blast
  have le: "lc a b \<le> 0 \<Longrightarrow> lc b c \<le> 0 \<Longrightarrow> lc a c \<le> 0" for a b c
    using assms unfolding collation_def by blast
  have ge_le: "(0 \<le> lc a b) = (lc b a \<le> 0)" for a b
    using flip [of a b] by (auto simp add: sgn_if split: if_splits)
  have gt_lt: "(0 < lc a b) = (lc b a < 0)" for a b
    using flip [of a b] by (auto simp add: sgn_if split: if_splits)
  have ge: "0 \<le> lc a b \<Longrightarrow> 0 \<le> lc b c \<Longrightarrow> 0 \<le> lc a c" for a b c
    unfolding ge_le by (rule le)
  have lt1: "lc a b < 0 \<Longrightarrow> lc b c \<le> 0 \<Longrightarrow> lc a c < 0" for a b c
  proof (rule ccontr)
    assume ab: "lc a b < 0" and bc: "lc b c \<le> 0" and "\<not> lc a c < 0"
    then have "0 \<le> lc a c" by simp
    then have "lc c a \<le> 0" by (simp add: ge_le)
    with bc have "lc b a \<le> 0" by (rule le)
    then have "0 \<le> lc a b" by (simp add: ge_le)
    with ab show False by simp
  qed
  have lt2: "lc a b \<le> 0 \<Longrightarrow> lc b c < 0 \<Longrightarrow> lc a c < 0" for a b c
  proof (rule ccontr)
    assume ab: "lc a b \<le> 0" and bc: "lc b c < 0" and "\<not> lc a c < 0"
    then have "0 \<le> lc a c" by simp
    then have "lc c a \<le> 0" by (simp add: ge_le)
    from this ab have "lc c b \<le> 0" by (rule le)
    then have "0 \<le> lc b c" by (simp add: ge_le)
    with bc show False by simp
  qed
  have gt1: "0 < lc a b \<Longrightarrow> 0 \<le> lc b c \<Longrightarrow> 0 < lc a c" for a b c
    unfolding gt_lt ge_le by (rule lt2)
  have gt2: "0 \<le> lc a b \<Longrightarrow> 0 < lc b c \<Longrightarrow> 0 < lc a c" for a b c
    unfolding gt_lt ge_le by (rule lt1)
  show ?thesis
    unfolding consistent_of_int
    using le [of s t u] ge [of s t u] lt1 [of s t u] lt2 [of s t u] gt1 [of s t u] gt2 [of s t u]
    by blast
qed

lemma cmp_nullish_a:
  "nullish a \<Longrightarrow> compareJsonValues E a b = Some (Fin (if nullish b then 0 else - 1))"
  by (simp add: cmp_nullish_both cmp_nullish_left)

lemma cmp_nullish_b:
  "nullish b \<Longrightarrow> compareJsonValues E a b = Some (Fin (if nullish a then 0 else 1))"
  by (simp add: cmp_nullish_both cmp_nullish_right)

lemma nullish_consistent:
  assumes "nullish a \<or> nullish b \<or> nullish c"
    and "compareJsonValues E a b = Some m"
    and "compareJsonValues E b c = Some n"
    and "compareJsonValues E a c = Some k"
  shows "consistent (signOf m) (signOf n) (signOf k)"
proof -
  consider "nullish a" | "\<not> nullish a" "nullish b" | "\<not> nullish a" "\<not> nullish b" "nullish c"
    using assms(1) by blast
  then show ?thesis
  proof cases
    case 1
    with assms(2,4) have "signOf m = (if nullish b then 0 else - 1)"
      "signOf k = (if nullish c then 0 else - 1)"
      by (auto simp add: cmp_nullish_a)
    moreover have "nullish b \<Longrightarrow> signOf n = (if nullish c then 0 else - 1)"
      using assms(3) by (auto simp add: cmp_nullish_a)
    moreover have "\<not> nullish b \<Longrightarrow> nullish c \<Longrightarrow> signOf n = 1"
      using assms(3) by (auto simp add: cmp_nullish_b)
    ultimately show ?thesis
      by (cases "nullish b"; cases "nullish c") (simp_all add: consistent_def)
  next
    case 2
    with assms(2,3) have "signOf m = 1" "signOf n = (if nullish c then 0 else - 1)"
      by (auto simp add: cmp_nullish_b cmp_nullish_a)
    moreover have "nullish c \<Longrightarrow> signOf k = 1"
      using assms(4) 2 by (auto simp add: cmp_nullish_b)
    ultimately show ?thesis
      by (cases "nullish c") (simp_all add: consistent_def)
  next
    case 3
    with assms(3,4) have "signOf n = 1" "signOf k = 1"
      by (auto simp add: cmp_nullish_b)
    then show ?thesis by (simp add: consistent_def)
  qed
qed

lemma scalars_consistent:
  assumes "collation (localeCompare E)"
    and "comparable E a b" and "comparable E b c" and "\<not> isArray a"
    and "compareJsonValues E a b = Some m"
    and "compareJsonValues E b c = Some n"
    and "compareJsonValues E a c = Some k"
  shows "consistent (signOf m) (signOf n) (signOf k)"
proof (cases "nullish a \<or> nullish b \<or> nullish c")
  case True
  then show ?thesis using assms(5-7) by (rule nullish_consistent)
next
  case False
  then have nn: "\<not> nullish a" "\<not> nullish b" "\<not> nullish c" by simp_all
  from comparable_cases [OF assms(2)] nn assms(4)
  consider x y where "a = JNum (Fin x)" "b = JNum (Fin y)" "isDouble x" "isDouble y"
    | s t where "a = JStr s" "b = JStr t"
    | x y where "a = JBool x" "b = JBool y"
    by auto
  then show ?thesis
  proof cases
    case 1
    with comparable_cases [OF assms(3)] nn obtain z where c: "c = JNum (Fin z)" "isDouble z"
      by auto
    from assms(5-7) have "m = toDouble (x - y)" "n = toDouble (y - z)" "k = toDouble (x - z)"
      by (simp_all add: 1 c cmp_doubles)
    then have "signOf m = sgn (x - y)" "signOf n = sgn (y - z)" "signOf k = sgn (x - z)"
      using 1(3,4) c(2) by (simp_all add: double_minus_sign)
    then show ?thesis by (simp only: consistent_sgn consistent_diff)
  next
    case 2
    with comparable_cases [OF assms(3)] nn obtain u where c: "c = JStr u"
      by auto
    from assms(5-7) have "signOf m = sgn (rat_of_int (localeCompare E s t))"
      "signOf n = sgn (rat_of_int (localeCompare E t u))"
      "signOf k = sgn (rat_of_int (localeCompare E s u))"
      by (auto simp add: 2 c cmp_strings)
    then show ?thesis
      using collation_consistent [OF assms(1), of s t u] by (simp only: consistent_sgn)
  next
    case 3
    with comparable_cases [OF assms(3)] nn obtain z where c: "c = JBool z"
      by auto
    from assms(5-7) show ?thesis
      by (cases x; cases y; cases z) (auto simp add: 3 c cmp_booleans consistent_def)
  qed
qed

lemma elems_consistent:
  assumes "collation (localeCompare E)"
  shows "(\<And>x y z m n k. x \<in> set xs \<Longrightarrow> comparable E x y \<Longrightarrow> comparable E y z \<Longrightarrow>
            comparable E x z \<Longrightarrow> compareJsonValues E x y = Some m \<Longrightarrow>
            compareJsonValues E y z = Some n \<Longrightarrow>
            compareJsonValues E x z = Some k \<Longrightarrow>
            consistent (signOf m) (signOf n) (signOf k)) \<Longrightarrow>
         comparableElems E xs ys \<Longrightarrow> comparableElems E ys zs \<Longrightarrow> comparableElems E xs zs \<Longrightarrow>
         compareElems E xs ys = Some m \<Longrightarrow> compareElems E ys zs = Some n \<Longrightarrow>
         compareElems E xs zs = Some k \<Longrightarrow> consistent (signOf m) (signOf n) (signOf k)"
proof (induction "length xs + length ys + length zs" arbitrary: xs ys zs m n k rule: less_induct)
  case less
  show ?case
  proof (cases "xs = [] \<and> ys = [] \<and> zs = []")
    case True
    with less.prems(5-7) show ?thesis by (auto simp add: consistent_def)
  next
    case False
    from less.prems(2) have ch1: "comparable E (hdU xs) (hdU ys)"
      and ct1: "comparableElems E (tl xs) (tl ys)"
      using comparableElems_unfold [of E xs ys] by blast+
    from less.prems(3) have ch2: "comparable E (hdU ys) (hdU zs)"
      and ct2: "comparableElems E (tl ys) (tl zs)"
      using comparableElems_unfold [of E ys zs] by blast+
    from less.prems(4) have ch3: "comparable E (hdU xs) (hdU zs)"
      and ct3: "comparableElems E (tl xs) (tl zs)"
      using comparableElems_unfold [of E xs zs] by blast+
    from compare_antisym [OF assms ch1] obtain m0
      where m0: "compareJsonValues E (hdU xs) (hdU ys) = Some m0" "m0 \<noteq> NaN" by blast
    from compare_antisym [OF assms ch2] obtain n0
      where n0: "compareJsonValues E (hdU ys) (hdU zs) = Some n0" "n0 \<noteq> NaN" by blast
    from compare_antisym [OF assms ch3] obtain k0
      where k0: "compareJsonValues E (hdU xs) (hdU zs) = Some k0" "k0 \<noteq> NaN" by blast
    from compareElems_result [OF assms ct1] obtain m1
      where m1: "compareElems E (tl xs) (tl ys) = Some m1" by blast
    from compareElems_result [OF assms ct2] obtain n1
      where n1: "compareElems E (tl ys) (tl zs) = Some n1" by blast
    from compareElems_result [OF assms ct3] obtain k1
      where k1: "compareElems E (tl xs) (tl zs) = Some k1" by blast
    have heads: "consistent (signOf m0) (signOf n0) (signOf k0)"
    proof (cases "hdU xs \<in> set xs")
      case True
      then show ?thesis using ch1 ch2 ch3 m0(1) n0(1) k0(1) by (rule less.prems(1))
    next
      case False
      with hdU_cases have "hdU xs = JUndefined" by blast
      then have "nullish (hdU xs) \<or> nullish (hdU ys) \<or> nullish (hdU zs)" by simp
      then show ?thesis using m0(1) n0(1) k0(1) by (rule nullish_consistent)
    qed
    have shorter: "length (tl xs) + length (tl ys) + length (tl zs)
        < length xs + length ys + length zs"
      using False by (intro tl_shorter3) blast
    have tails: "consistent (signOf m1) (signOf n1) (signOf k1)"
      using shorter
    proof (rule less.hyps)
      fix x y z m n k
      assume a: "x \<in> set (tl xs)" and b: "comparable E x y" "comparable E y z" "comparable E x z"
        "compareJsonValues E x y = Some m" "compareJsonValues E y z = Some n"
        "compareJsonValues E x z = Some k"
      from a have "x \<in> set xs" by (rule set_tl)
      then show "consistent (signOf m) (signOf n) (signOf k)" using b by (rule less.prems(1))
    qed (rule ct1 ct2 ct3 m1 n1 k1)+
    from compareElems_lex [OF m0(1) m1] less.prems(5)
    have m: "m = (if m0 \<noteq> Fin 0 then m0 else m1)" by simp
    from compareElems_lex [OF n0(1) n1] less.prems(6)
    have n: "n = (if n0 \<noteq> Fin 0 then n0 else n1)" by simp
    from compareElems_lex [OF k0(1) k1] less.prems(7)
    have k: "k = (if k0 \<noteq> Fin 0 then k0 else k1)" by simp
    show ?thesis
      unfolding m n k sign_lex [OF m0(2)] sign_lex [OF n0(2)] sign_lex [OF k0(2)]
      using heads tails by (rule consistent_lex)
  qed
qed

lemma compare_consistent:
  assumes "collation (localeCompare E)"
  shows "comparable E a b \<Longrightarrow> comparable E b c \<Longrightarrow> comparable E a c \<Longrightarrow>
         compareJsonValues E a b = Some m \<Longrightarrow> compareJsonValues E b c = Some n \<Longrightarrow>
         compareJsonValues E a c = Some k \<Longrightarrow> consistent (signOf m) (signOf n) (signOf k)"
proof (induction a arbitrary: b c m n k)
  case (JArr ref xs)
  show ?case
  proof (cases "nullish b \<or> nullish c")
    case True
    then have "nullish (JArr ref xs) \<or> nullish b \<or> nullish c" by simp
    then show ?thesis using JArr.prems(4-6) by (rule nullish_consistent)
  next
    case False
    with comparable_cases [OF JArr.prems(1)] obtain ref' ys where b: "b = JArr ref' ys"
      by auto
    from False comparable_cases [OF JArr.prems(3)] obtain ref'' zs where c: "c = JArr ref'' zs"
      by auto
    from JArr.prems(1-3) have cs: "comparableElems E xs ys" "comparableElems E ys zs"
      "comparableElems E xs zs"
      by (simp_all add: b c)
    from JArr.prems(4-6) have rs: "compareElems E xs ys = Some m"
      "compareElems E ys zs = Some n" "compareElems E xs zs = Some k"
      by (simp_all add: b c cmp_arrays)
    show ?thesis
      by (rule elems_consistent [OF assms JArr.IH cs rs])
  qed
qed (rule scalars_consistent [OF assms]; simp)+

text \<open>Ties: a comparable pair compares as 0 exactly when it is tied.\<close>

lemma tied_scalars: "\<not> (isArray a \<and> isArray b) \<Longrightarrow> tied E a b = tiedScalars E a b"
  by (cases a; cases b) simp_all

lemma toDouble_zero_iff:
  assumes "isDouble x" and "isDouble y"
  shows "(toDouble (x - y) = Fin 0) = (x = y)"
proof -
  have "(toDouble (x - y) = Fin 0) = (signOf (toDouble (x - y)) = 0)"
    using toDouble_not_NaN by (rule sign_zero_iff)
  also have "\<dots> = (sgn (x - y) = 0)"
    using assms by (simp only: double_minus_sign)
  also have "\<dots> = (x = y)" by (simp add: sgn_if)
  finally show ?thesis .
qed

lemma scalars_tie:
  assumes "comparable E a b" and "\<not> (isArray a \<and> isArray b)"
  shows "(compareJsonValues E a b = Some (Fin 0)) = tied E a b"
proof -
  have t: "tied E a b = tiedScalars E a b" using assms(2) by (rule tied_scalars)
  consider "nullish a" "nullish b" | "nullish a" "\<not> nullish b" | "\<not> nullish a" "nullish b"
    | "\<not> nullish a" "\<not> nullish b"
    by blast
  then show ?thesis
  proof cases
    case 1
    then show ?thesis unfolding t
      by (cases a; cases b) (simp_all add: cmp_nullish_both tiedScalars_def)
  next
    case 2
    then show ?thesis unfolding t
      by (cases a; cases b) (simp_all add: cmp_nullish_left tiedScalars_def)
  next
    case 3
    then show ?thesis unfolding t
      by (cases a; cases b) (simp_all add: cmp_nullish_right tiedScalars_def)
  next
    case 4
    from comparable_cases [OF assms(1)] 4 assms(2)
    consider x y where "a = JNum (Fin x)" "b = JNum (Fin y)" "isDouble x" "isDouble y"
      | s u where "a = JStr s" "b = JStr u"
      | x y where "a = JBool x" "b = JBool y"
      by auto
    then show ?thesis
    proof cases
      case 1
      then show ?thesis unfolding t
        by (simp add: cmp_doubles tiedScalars_def toDouble_zero_iff)
    next
      case 2
      then show ?thesis unfolding t by (simp add: cmp_strings tiedScalars_def)
    next
      case 3
      then show ?thesis unfolding t by (auto simp add: cmp_booleans tiedScalars_def)
    qed
  qed
qed

lemma elems_tie:
  "(\<And>x y. x \<in> set xs \<Longrightarrow> comparable E x y \<Longrightarrow>
      (compareJsonValues E x y = Some (Fin 0)) = tied E x y) \<Longrightarrow>
   comparableElems E xs ys \<Longrightarrow>
   (compareElems E xs ys = Some (Fin 0)) = tiedElems E xs ys"
proof (induction "length xs + length ys" arbitrary: xs ys rule: less_induct)
  case less
  show ?case
  proof (cases "xs = [] \<and> ys = []")
    case True
    then show ?thesis by simp
  next
    case False
    from less.prems(2) have ch: "comparable E (hdU xs) (hdU ys)"
      and ct: "comparableElems E (tl xs) (tl ys)"
      using comparableElems_unfold [of E xs ys] by blast+
    have heads: "(compareJsonValues E (hdU xs) (hdU ys) = Some (Fin 0))
        = tied E (hdU xs) (hdU ys)"
    proof (cases "hdU xs \<in> set xs")
      case True
      then show ?thesis using ch by (rule less.prems(1))
    next
      case False
      with hdU_cases have "hdU xs = JUndefined" by blast
      then have "\<not> (isArray (hdU xs) \<and> isArray (hdU ys))" by simp
      with ch show ?thesis by (rule scalars_tie)
    qed
    have shorter: "length (tl xs) + length (tl ys) < length xs + length ys"
      using False by (intro tl_shorter) blast
    have tails: "(compareElems E (tl xs) (tl ys) = Some (Fin 0)) = tiedElems E (tl xs) (tl ys)"
      using shorter
    proof (rule less.hyps)
      show "comparableElems E (tl xs) (tl ys)" by (rule ct)
    next
      fix x y
      assume a: "x \<in> set (tl xs)" "comparable E x y"
      from a(1) have "x \<in> set xs" by (rule set_tl)
      then show "(compareJsonValues E x y = Some (Fin 0)) = tied E x y"
        using a(2) by (rule less.prems(1))
    qed
    show ?thesis
      unfolding compareElems_zero [of E xs ys] tiedElems_unfold [of E xs ys] heads tails ..
  qed
qed

lemma compare_tie:
  "comparable E a b \<Longrightarrow> (compareJsonValues E a b = Some (Fin 0)) = tied E a b"
proof (induction a arbitrary: b)
  case (JArr r xs)
  show ?case
  proof (cases "isArray b")
    case True
    then obtain r' ys where b: "b = JArr r' ys" by (cases b) simp_all
    with JArr.prems have "comparableElems E xs ys" by simp
    from elems_tie [OF JArr.IH this] show ?thesis
      by (simp add: cmp_arrays b)
  next
    case False
    then have "\<not> (isArray (JArr r xs) \<and> isArray b)" by simp
    with JArr.prems show ?thesis by (rule scalars_tie)
  qed
qed (rule scalars_tie; simp)+

lemma collation_codeUnitCompare: "collation codeUnitCompare"
  unfolding collation_def codeUnitCompare_def by (auto simp add: sgn_if)

text \<open>
  The subtraction is a double: the difference of \<open>2 ^ 1023\<close> and its negative is beyond
  the largest one and comes out as Infinity, both operands being doubles themselves.
\<close>

lemma floorlog2_pow: "floorlog2 (2 ^ n) = int n"
proof -
  have "(2::rat) ^ n = rat_of_int (2 ^ n)" by simp
  then have f: "\<lfloor>(2::rat) ^ n\<rfloor> = 2 ^ n" by (simp only: floor_of_int)
  have "bitlen (1 * 2 ^ n) = bitlen 1 + int n" by (rule bitlen_pow2) simp
  moreover have "bitlen 1 = 1" by (simp add: bitlen_alt_def)
  ultimately have "bitlen (2 ^ n) = int n + 1" by simp
  then show ?thesis by (simp add: floorlog2_def f)
qed

lemma roundMagnitude_pow:
  assumes "52 \<le> n"
  shows "roundMagnitude (2 ^ n) = 2 ^ n"
proof -
  have mx: "max (int n) (- 1022) = int n" by simp
  have e: "pow2 (int n - 52) = 2 ^ (n - 52)"
    using assms by (simp add: pow2_def nat_diff_distrib)
  have q: "(2::rat) ^ n / 2 ^ (n - 52) = rat_of_int (2 ^ 52)"
    using assms by (simp add: power_diff [symmetric])
  have r: "roundHalfEven (rat_of_int (2 ^ 52)) = 2 ^ 52"
    by (simp add: roundHalfEven_def Let_def)
  have p: "rat_of_int (2 ^ 52) * 2 ^ (n - 52) = 2 ^ n"
    using q by (simp add: field_simps)
  have "roundMagnitude (2 ^ n)
      = rat_of_int (roundHalfEven (2 ^ n / pow2 (int n - 52))) * pow2 (int n - 52)"
    by (simp only: roundMagnitude_def Let_def floorlog2_pow mx)
  also have "\<dots> = rat_of_int (2 ^ 52) * 2 ^ (n - 52)"
    by (simp only: e q r)
  finally show ?thesis by (simp only: p)
qed

lemma toDouble_overflow:
  assumes "1024 \<le> n"
  shows "toDouble (2 ^ n) = PosInf"
proof -
  have "(2::rat) ^ 1024 \<le> 2 ^ n"
    by (rule power_increasing) (use assms in simp_all)
  moreover have "roundMagnitude \<bar>2 ^ n\<bar> = 2 ^ n"
    using assms by (simp add: roundMagnitude_pow)
  moreover have "(2::rat) ^ n \<noteq> 0" "(0::rat) < 2 ^ n" by simp_all
  ultimately show ?thesis
    unfolding toDouble_def overflowBound_def by (simp only: if_False if_True)
qed

lemma isDouble_pow:
  assumes "52 \<le> n" and "n < 1024"
  shows "isDouble (2 ^ n)" and "isDouble (- (2 ^ n))"
proof -
  have "(2::rat) ^ n < 2 ^ 1024"
    by (rule power_strict_increasing) (use assms in simp_all)
  then have small: "\<not> (2::rat) ^ 1024 \<le> 2 ^ n" by (simp only: not_le)
  have rm: "roundMagnitude \<bar>2 ^ n\<bar> = 2 ^ n" "roundMagnitude \<bar>- (2 ^ n)\<bar> = 2 ^ n"
    using assms by (simp_all add: roundMagnitude_pow)
  have nz: "(2::rat) ^ n \<noteq> 0" "- ((2::rat) ^ n) \<noteq> 0" by simp_all
  have sg: "(0::rat) < 2 ^ n" "\<not> (0::rat) < - (2 ^ n)" by simp_all
  show "isDouble (2 ^ n)"
    unfolding isDouble_def toDouble_def overflowBound_def
    by (simp only: rm nz sg small if_False if_True)
  show "isDouble (- (2 ^ n))"
    unfolding isDouble_def toDouble_def overflowBound_def
    by (simp only: rm nz sg small if_False if_True)
qed

lemma cmp_overflow:
  "comparable E (JNum (Fin (2 ^ 1023))) (JNum (Fin (- (2 ^ 1023))))
   \<and> compareJsonValues E (JNum (Fin (2 ^ 1023))) (JNum (Fin (- (2 ^ 1023)))) = Some PosInf"
proof
  have "isDouble (2 ^ 1023)" "isDouble (- (2 ^ 1023))"
    by (rule isDouble_pow; simp)+
  then show "comparable E (JNum (Fin (2 ^ 1023))) (JNum (Fin (- (2 ^ 1023))))"
    by (simp only: comparable.simps comparableScalars_def finiteNumber.simps simp_thms)
  have d: "(2::rat) ^ 1023 - - (2 ^ 1023) = 2 ^ Suc 1023"
    by (simp only: power_Suc minus_minus diff_minus_eq_add mult_2)
  have "toDouble (2 ^ Suc 1023) = PosInf"
    by (rule toDouble_overflow) simp
  then show "compareJsonValues E (JNum (Fin (2 ^ 1023))) (JNum (Fin (- (2 ^ 1023))))
      = Some PosInf"
    by (simp only: cmp_doubles d)
qed

text \<open>
  C7, the claim as written fails.  The array with the single element null and the empty
  array are comparable and compareJsonValues ties them in both directions, although they
  are different values that deepEqual tells apart: the element missing from the shorter
  array reads as undefined, which ties with null.  So the order is not strict.
\<close>

theorem compareJsonValues_tie_counterexample:
  "comparable exampleEnv (JArr 1 [JNull]) (JArr 2 [])
   \<and> compareJsonValues exampleEnv (JArr 1 [JNull]) (JArr 2 []) = Some (Fin 0)
   \<and> compareJsonValues exampleEnv (JArr 2 []) (JArr 1 [JNull]) = Some (Fin 0)
   \<and> \<not> deepEqual (JArr 1 [JNull]) (JArr 2 [])"
  by (simp add: compareJsonValues.simps deepEqual.simps comparableScalars_def)

text \<open>
  C7, amended.  Given a host collation that is itself antisymmetric in sign and
  transitive, compareJsonValues is a total preorder on comparable values (null,
  undefined, numbers, strings, booleans and arrays of these, compared kind with kind)
  that is strict except for the ties listed below.

  \<^item> Every comparable pair gets a result in both directions, never NaN, and the two
    results have opposite signs.
  \<^item> For pairwise comparable a, b, c the signs of the three results are those of a total
    preorder: if a is not after b and b is not after c then a is not after c, and a
    strict step on either side makes the conclusion strict.
  \<^item> A comparable pair compares as 0 exactly when it is tied: null and undefined with
    each other, two equal numbers, two equal booleans, two strings that the host's
    collation ties, two arrays tied index by index with an index beyond the end of the
    shorter one read as undefined.
  \<^item> Two numbers compare with the sign of their difference, so distinct numbers are
    never tied even where the subtraction overflows; two strings compare as the host's
    collation orders them; false is before true; null and undefined are before every
    other value.
  \<^item> Two arrays compare element by element, the first non-zero comparison deciding, an
    element beyond the end of the shorter array reading as undefined.
\<close>

theorem compareJsonValues_total_preorder:
  assumes "collation (localeCompare E)"
  shows "(comparable E a b \<longrightarrow>
            (\<exists>m n. compareJsonValues E a b = Some m \<and> compareJsonValues E b a = Some n
               \<and> m \<noteq> NaN \<and> n \<noteq> NaN \<and> signOf m = - signOf n))
   \<and> (comparable E a b \<and> comparable E b c \<and> comparable E a c \<longrightarrow>
            (\<exists>m n k. compareJsonValues E a b = Some m \<and> compareJsonValues E b c = Some n
               \<and> compareJsonValues E a c = Some k
               \<and> consistent (signOf m) (signOf n) (signOf k)
               \<and> (signOf m \<le> 0 \<and> signOf n \<le> 0 \<longrightarrow> signOf k \<le> 0)))
   \<and> (comparable E a b \<longrightarrow> (compareJsonValues E a b = Some (Fin 0)) = tied E a b)
   \<and> (isDouble u \<and> isDouble v \<longrightarrow>
            (\<exists>m. compareJsonValues E (JNum (Fin u)) (JNum (Fin v)) = Some m
               \<and> signOf m = sgn (u - v) \<and> (m = Fin 0) = (u = v)))
   \<and> compareJsonValues E (JStr s) (JStr t) = Some (Fin (of_int (localeCompare E s t)))
   \<and> compareJsonValues E (JBool p) (JBool q)
        = Some (Fin ((if p then 1 else 0) - (if q then 1 else 0)))
   \<and> (nullish a \<longrightarrow> compareJsonValues E a b = Some (Fin (if nullish b then 0 else - 1)))
   \<and> compareJsonValues E (JArr r1 (x # xs)) (JArr r2 (y # ys))
        = (case compareJsonValues E x y of
             None \<Rightarrow> None
           | Some k \<Rightarrow> if k \<noteq> Fin 0 then Some k
                       else compareJsonValues E (JArr r1 xs) (JArr r2 ys))
   \<and> compareJsonValues E (JArr r1 (x # xs)) (JArr r2 [])
        = (case compareJsonValues E x JUndefined of
             None \<Rightarrow> None
           | Some k \<Rightarrow> if k \<noteq> Fin 0 then Some k
                       else compareJsonValues E (JArr r1 xs) (JArr r2 []))
   \<and> compareJsonValues E (JArr r1 []) (JArr r2 (y # ys))
        = (case compareJsonValues E JUndefined y of
             None \<Rightarrow> None
           | Some k \<Rightarrow> if k \<noteq> Fin 0 then Some k
                       else compareJsonValues E (JArr r1 []) (JArr r2 ys))
   \<and> compareJsonValues E (JArr r1 []) (JArr r2 []) = Some (Fin 0)"
proof (intro conjI impI)
  assume "comparable E a b"
  then show "\<exists>m n. compareJsonValues E a b = Some m \<and> compareJsonValues E b a = Some n
      \<and> m \<noteq> NaN \<and> n \<noteq> NaN \<and> signOf m = - signOf n"
    by (rule compare_antisym [OF assms])
next
  assume c: "comparable E a b \<and> comparable E b c \<and> comparable E a c"
  from c have c3: "comparable E a b" "comparable E b c" "comparable E a c" by simp_all
  from compare_antisym [OF assms c3(1)] obtain m
    where m: "compareJsonValues E a b = Some m" by blast
  from compare_antisym [OF assms c3(2)] obtain n
    where n: "compareJsonValues E b c = Some n" by blast
  from compare_antisym [OF assms c3(3)] obtain k
    where k: "compareJsonValues E a c = Some k" by blast
  note res = m n k
  have "consistent (signOf m) (signOf n) (signOf k)"
    by (rule compare_consistent [OF assms c3 res])
  moreover from this have "signOf m \<le> 0 \<and> signOf n \<le> 0 \<longrightarrow> signOf k \<le> 0"
    by (simp add: consistent_def)
  ultimately show "\<exists>m n k. compareJsonValues E a b = Some m
      \<and> compareJsonValues E b c = Some n \<and> compareJsonValues E a c = Some k
      \<and> consistent (signOf m) (signOf n) (signOf k)
      \<and> (signOf m \<le> 0 \<and> signOf n \<le> 0 \<longrightarrow> signOf k \<le> 0)"
    using res by blast
next
  assume "comparable E a b"
  then show "(compareJsonValues E a b = Some (Fin 0)) = tied E a b"
    by (rule compare_tie)
next
  assume d: "isDouble u \<and> isDouble v"
  then have "signOf (toDouble (u - v)) = sgn (u - v)"
    by (simp only: double_minus_sign)
  moreover from d have "(toDouble (u - v) = Fin 0) = (u = v)"
    by (simp only: toDouble_zero_iff)
  ultimately show "\<exists>m. compareJsonValues E (JNum (Fin u)) (JNum (Fin v)) = Some m
      \<and> signOf m = sgn (u - v) \<and> (m = Fin 0) = (u = v)"
    by (simp only: cmp_doubles) blast
next
  show "compareJsonValues E (JStr s) (JStr t) = Some (Fin (of_int (localeCompare E s t)))"
    by (rule cmp_strings)
next
  show "compareJsonValues E (JBool p) (JBool q)
      = Some (Fin ((if p then 1 else 0) - (if q then 1 else 0)))"
    by (rule cmp_booleans)
next
  assume "nullish a"
  then show "compareJsonValues E a b = Some (Fin (if nullish b then 0 else - 1))"
    by (rule cmp_nullish_a)
qed (auto simp add: cmp_arrays split: option.splits)

theorem compareJsonValues_total_preorder_witness:
  "collation (localeCompare exampleEnv)
   \<and> comparable exampleEnv (JArr 1 [JNum (Fin 1), JStr ''a'']) (JArr 2 [JNum (Fin 1), JStr ''b''])
   \<and> comparable exampleEnv (JArr 2 [JNum (Fin 1), JStr ''b'']) (JArr 3 [JNum (Fin 2)])
   \<and> comparable exampleEnv (JArr 1 [JNum (Fin 1), JStr ''a'']) (JArr 3 [JNum (Fin 2)])
   \<and> (\<exists>m n k.
        compareJsonValues exampleEnv (JArr 1 [JNum (Fin 1), JStr ''a''])
          (JArr 2 [JNum (Fin 1), JStr ''b'']) = Some m
      \<and> compareJsonValues exampleEnv (JArr 2 [JNum (Fin 1), JStr ''b''])
          (JArr 3 [JNum (Fin 2)]) = Some n
      \<and> compareJsonValues exampleEnv (JArr 1 [JNum (Fin 1), JStr ''a''])
          (JArr 3 [JNum (Fin 2)]) = Some k
      \<and> consistent (signOf m) (signOf n) (signOf k)
      \<and> (signOf m \<le> 0 \<and> signOf n \<le> 0 \<longrightarrow> signOf k \<le> 0))
   \<and> \<not> tied exampleEnv (JArr 1 [JNum (Fin 1), JStr ''a'']) (JArr 2 [JNum (Fin 1), JStr ''b''])
   \<and> compareJsonValues exampleEnv (JArr 1 [JNum (Fin 1), JStr ''a''])
        (JArr 2 [JNum (Fin 1), JStr ''b'']) \<noteq> Some (Fin 0)
   \<and> isDouble 1 \<and> isDouble 2
   \<and> (\<exists>m. compareJsonValues exampleEnv (JNum (Fin 1)) (JNum (Fin 2)) = Some m
        \<and> signOf m = sgn (1 - 2) \<and> (m = Fin 0) = ((1::rat) = 2))
   \<and> nullish JNull
   \<and> compareJsonValues exampleEnv JNull (JNum (Fin 1)) = Some (Fin (- 1))"
proof -
  let ?a = "JArr 1 [JNum (Fin 1), JStr ''a'']"
  let ?b = "JArr 2 [JNum (Fin 1), JStr ''b'']"
  let ?c = "JArr 3 [JNum (Fin 2)]"
  have col: "collation (localeCompare exampleEnv)"
    by (simp add: exampleEnv_def collation_codeUnitCompare)
  have c1: "comparable exampleEnv ?a ?b"
    and c2: "comparable exampleEnv ?b ?c"
    and c3: "comparable exampleEnv ?a ?c"
    by (simp_all add: comparableScalars_def isDouble_1 isDouble_2)
  have nt: "\<not> tied exampleEnv ?a ?b"
    by (simp add: tiedScalars_def exampleEnv_def codeUnitCompare_def)
  have d: "isDouble 1" "isDouble 2" by (rule isDouble_1, rule isDouble_2)
  have nl: "nullish JNull" by simp
  note main = compareJsonValues_total_preorder [OF col]
  from main [where a = ?a and b = ?b and c = ?c] c1 c2 c3
  have t: "\<exists>m n k. compareJsonValues exampleEnv ?a ?b = Some m
      \<and> compareJsonValues exampleEnv ?b ?c = Some n
      \<and> compareJsonValues exampleEnv ?a ?c = Some k
      \<and> consistent (signOf m) (signOf n) (signOf k)
      \<and> (signOf m \<le> 0 \<and> signOf n \<le> 0 \<longrightarrow> signOf k \<le> 0)"
    by blast
  from main [where a = ?a and b = ?b] c1 nt
  have z: "compareJsonValues exampleEnv ?a ?b \<noteq> Some (Fin 0)"
    by blast
  from main [where u = 1 and v = 2] d
  have n: "\<exists>m. compareJsonValues exampleEnv (JNum (Fin 1)) (JNum (Fin 2)) = Some m
      \<and> signOf m = sgn (1 - 2) \<and> (m = Fin 0) = ((1::rat) = 2)"
    by blast
  from main [where a = JNull and b = "JNum (Fin 1)"] nl
  have u: "compareJsonValues exampleEnv JNull (JNum (Fin 1)) = Some (Fin (- 1))"
    by simp
  from col c1 c2 c3 t nt z d n nl u show ?thesis
    by (intro conjI)
qed

end
